theory Spec2Isabelle
  imports Main "HOL-Library.Word" "HOL-Library.Multiset"
begin

section \<open>EventBus: a typed publish/subscribe bus\<close>

text \<open>
  A shallow embedding of \<^verbatim>\<open>include/EventBus.h\<close> and \<^verbatim>\<open>src/EventBus.cpp\<close>.
  Every way a C++ call can fail to return a value is a value of the model: a thrown
  exception, and undefined behaviour (an out-of-range read, a null dereference).
\<close>

subsection \<open>Exceptions and faults\<close>

text \<open>
  A thrown value either derives from \<^verbatim>\<open>std::exception\<close> (it carries its \<^verbatim>\<open>what()\<close>
  text) or it does not (\<^verbatim>\<open>throw 42;\<close>). The clause \<^verbatim>\<open>catch (std::exception e)\<close> of
  the dispatch loops catches the first kind only.
\<close>

datatype exn = std_exception string | foreign_exception

datatype fault = UndefinedBehaviour | Uncaught exn

subsection \<open>Topic matcher\<close>

type_synonym Topic = string

text \<open>
  \<^verbatim>\<open>size_t\<close> is taken as 64 bits wide. \<^verbatim>\<open>pattern.length() - 1\<close> is unsigned
  arithmetic and wraps to \<^verbatim>\<open>SIZE_MAX\<close> at length 0.
\<close>

definition SIZE_MAX :: nat where
  "SIZE_MAX = 2 ^ 64 - 1"

definition size_t_minus1 :: "nat \<Rightarrow> nat" where
  "size_t_minus1 n = (if n = 0 then SIZE_MAX else n - 1)"

text \<open>
  \<^verbatim>\<open>std::string::back()\<close>: the last character; on the empty string the behaviour is
  undefined.
\<close>

definition string_back :: "string \<Rightarrow> fault + char" where
  "string_back s = (if s = [] then Inl UndefinedBehaviour else Inr (last s))"

text \<open>
  \<^verbatim>\<open>traits_type::compare\<close> followed by the comparison of the lengths: negative, zero
  or positive. Characters compare as unsigned bytes.
\<close>

fun compare3 :: "string \<Rightarrow> string \<Rightarrow> int" where
  "compare3 [] [] = 0"
| "compare3 [] (y # ys) = - 1"
| "compare3 (x # xs) [] = 1"
| "compare3 (x # xs) (y # ys) =
     (if x = y then compare3 xs ys
      else if (of_char x :: nat) < of_char y then - 1 else 1)"

text \<open>
  \<^verbatim>\<open>s.compare(pos1, count1, str, pos2, count2)\<close>: throws \<^verbatim>\<open>std::out_of_range\<close> when a
  position lies beyond the end of its string; otherwise both counts are clamped to what
  is left of the strings and the two substrings are compared.
\<close>

definition compare :: "string \<Rightarrow> nat \<Rightarrow> nat \<Rightarrow> string \<Rightarrow> nat \<Rightarrow> nat \<Rightarrow> exn + int" where
  "compare s pos1 count1 str pos2 count2 =
     (if length s < pos1 \<or> length str < pos2 then Inl (std_exception ''basic_string::compare'')
      else Inr (compare3 (take count1 (drop pos1 s)) (take count2 (drop pos2 str))))"

text \<open>
  \<^verbatim>\<open>EventBus::isTopicMatch\<close> (EventBus.cpp, lines 34-41). The operator \<^verbatim>\<open>&&\<close>
  evaluates \<^verbatim>\<open>pattern.back()\<close> first and the comparison only when the last character
  is the star.
\<close>

definition isTopicMatch :: "Topic \<Rightarrow> Topic \<Rightarrow> fault + bool" where
  "isTopicMatch pattern topic =
     (if pattern = ''*'' then Inr True
      else case string_back pattern of
        Inl f \<Rightarrow> Inl f
      | Inr c \<Rightarrow>
          if c = CHR ''*'' then
            (case compare topic 0 (size_t_minus1 (length pattern))
                    pattern 0 (size_t_minus1 (length pattern)) of
               Inl e \<Rightarrow> Inl (Uncaught e)
             | Inr r \<Rightarrow> if r = 0 then Inr True else Inr (pattern = topic))
          else Inr (pattern = topic))"

text \<open>
  The matcher as section 4.3 of the specification words it: the global wildcard, then the
  trailing-wildcard prefix rule, then exact equality.
\<close>

definition match_spec :: "Topic \<Rightarrow> Topic \<Rightarrow> bool" where
  "match_spec pattern topic =
     (if pattern = ''*'' then True
      else if pattern \<noteq> [] \<and> last pattern = CHR ''*''
        then take (length pattern - 1) topic = take (length pattern - 1) pattern
      else pattern = topic)"

subsection \<open>Payload store\<close>

text \<open>
  Payload objects live in a store: cell \<open>a\<close> of a store \<open>h\<close> is \<open>h ! a\<close>, and an
  allocation appends a cell, so the new address is one that no earlier pointer holds.
  The type \<open>'v\<close> is the universe of payload values; copying a payload (its copy
  constructor) yields an equal value.
\<close>

type_synonym addr = nat

type_synonym 'v heap = "'v list"

definition make_shared :: "'v \<Rightarrow> 'v heap \<Rightarrow> addr \<times> 'v heap" where
  "make_shared v h = (length h, h @ [v])"

subsection \<open>Type-erased envelope\<close>

text \<open>
  \<^verbatim>\<open>typeid(T)\<close> is a name. A \<^verbatim>\<open>shared_ptr<Message>\<close> is modelled by the dynamic type of
  the \<^verbatim>\<open>TypedMessage<T>\<close> it points to (the field \<open>type_id\<close>, what \<^verbatim>\<open>type()\<close> returns)
  and the address of that object's member \<^verbatim>\<open>data_\<close> (the field \<open>msg_data\<close>). The
  pointer keeps the object alive, so the address is one of the store.
\<close>

type_synonym type_info = string

record Message =
  type_id :: type_info
  msg_data :: addr

text \<open>\<^verbatim>\<open>std::make_shared<TypedMessage<T>>(message)\<close>: the constructor copies the payload.\<close>

definition TypedMessage :: "type_info \<Rightarrow> 'v \<Rightarrow> 'v heap \<Rightarrow> Message \<times> 'v heap" where
  "TypedMessage T message h =
     (case make_shared message h of (a, h') \<Rightarrow> (\<lparr>type_id = T, msg_data = a\<rparr>, h'))"

text \<open>\<^verbatim>\<open>std::dynamic_pointer_cast<TypedMessage<T>>(msg)\<close>: null unless the dynamic type is T's.\<close>

definition dynamic_pointer_cast :: "type_info \<Rightarrow> Message \<Rightarrow> Message option" where
  "dynamic_pointer_cast T msg = (if type_id msg = T then Some msg else None)"

text \<open>\<^verbatim>\<open>TypedMessage<T>::get() const\<close>: a const reference to the stored payload.\<close>

definition get_message :: "Message \<Rightarrow> 'v heap \<Rightarrow> 'v" where
  "get_message typedMsg h = h ! msg_data typedMsg"

subsection \<open>Response capsule\<close>

text \<open>
  \<^verbatim>\<open>TypedResponse<T>\<close> has the members \<^verbatim>\<open>data_\<close> and \<^verbatim>\<open>valid_\<close>; its default
  constructor leaves \<^verbatim>\<open>data_\<close> default-initialised (the parameter \<open>dflt\<close>) and sets
  \<^verbatim>\<open>valid_\<close> to false. \<^verbatim>\<open>TypedResponse<void>\<close> has \<^verbatim>\<open>valid_\<close> only, and its
  constructor's argument defaults to true.
\<close>

datatype 'a TypedResponse = TypedResponse (data_of: 'a) (valid_of: bool)

datatype TypedResponse_void = TypedResponse_void (valid_of_void: bool)

definition TypedResponse_value :: "'a \<Rightarrow> 'a TypedResponse" where
  "TypedResponse_value d = TypedResponse d True"

definition TypedResponse_default :: "'a \<Rightarrow> 'a TypedResponse" where
  "TypedResponse_default dflt = TypedResponse dflt False"

definition TypedResponse_void_default :: TypedResponse_void where
  "TypedResponse_void_default = TypedResponse_void True"

fun get :: "'a TypedResponse \<Rightarrow> exn + 'a" where
  "get (TypedResponse d v) = (if \<not> v then Inl (std_exception ''Invalid response'') else Inr d)"

fun get_void :: "TypedResponse_void \<Rightarrow> exn + unit" where
  "get_void (TypedResponse_void v) =
     (if \<not> v then Inl (std_exception ''Invalid response'') else Inr ())"

text \<open>A \<^verbatim>\<open>Response\<close> behind a base-class pointer, and its virtual \<^verbatim>\<open>isValid() const\<close>.\<close>

datatype 'r Response = Typed "'r TypedResponse" | Void TypedResponse_void

fun isValid :: "'r Response \<Rightarrow> bool" where
  "isValid (Typed r) = valid_of r"
| "isValid (Void r) = valid_of_void r"

subsection \<open>Handlers\<close>

text \<open>
  What a call of a handler does: it returns a \<^verbatim>\<open>shared_ptr<Response>\<close> (\<open>None\<close> is the
  null pointer) or it throws. A handler may write to the store.
\<close>

datatype 'r outcome = Returns "'r Response option" | Throws exn

type_synonym ('v, 'r) typed_handler = "addr \<Rightarrow> 'v heap \<Rightarrow> 'r outcome \<times> 'v heap"

type_synonym ('v, 'r) Handler = "Message \<Rightarrow> 'v heap \<Rightarrow> 'r outcome \<times> 'v heap"

text \<open>
  The lambda \<^verbatim>\<open>wrappedHandler\<close> of \<^verbatim>\<open>subscribe<T>\<close> (EventBus.h, lines 136-142); it
  captures \<^verbatim>\<open>handler\<close> and knows T. \<^verbatim>\<open>typedMsg->get()\<close> is a const reference, so
  \<^verbatim>\<open>std::move\<close> of it selects T's copy constructor.
\<close>

definition wrappedHandler :: "type_info \<Rightarrow> ('v, 'r) typed_handler \<Rightarrow> ('v, 'r) Handler" where
  "wrappedHandler T handler msg h =
     (case dynamic_pointer_cast T msg of
        None \<Rightarrow> (Returns (Some (Void TypedResponse_void_default)), h)
      | Some typedMsg \<Rightarrow>
          (case make_shared (get_message typedMsg h) h of (p, h') \<Rightarrow> handler p h'))"

subsection \<open>The bus\<close>

text \<open>
  The members \<^verbatim>\<open>subscriptions_\<close>, \<^verbatim>\<open>messageQueue_\<close>, \<^verbatim>\<open>dispatchThread_\<close>,
  \<^verbatim>\<open>running_\<close> and \<^verbatim>\<open>handlerIdCounter_\<close> are the fields of the same names without the
  final underscore; \<^verbatim>\<open>Subscription::id\<close> is \<open>sub_id\<close>. \<open>dispatchThread\<close> holds whether
  the thread is joinable. The two mutexes serialise the operations, which the model takes
  one at a time.
\<close>

type_synonym HandlerId = "64 word"

record ('v, 'r) Subscription =
  sub_id :: HandlerId
  topicPattern :: Topic
  handler :: "('v, 'r) Handler"
  priority :: "32 word"

text \<open>\<^verbatim>\<open>Subscription::operator<\<close>: the priorities, as signed integers.\<close>

definition less_Subscription :: "('v, 'r) Subscription \<Rightarrow> ('v, 'r) Subscription \<Rightarrow> bool" where
  "less_Subscription a other = (sint (priority a) < sint (priority other))"

text \<open>
  \<^verbatim>\<open>std::stable_sort(first, last)\<close> orders by \<^verbatim>\<open>operator<\<close> and keeps equivalent
  elements in their order; that fixes its result, which is the one of a stable insertion
  sort on the signed priority.
\<close>

definition stable_sort :: "('v, 'r) Subscription list \<Rightarrow> ('v, 'r) Subscription list" where
  "stable_sort subs = sort_key (\<lambda>sub. sint (priority sub)) subs"

record MessageEvent =
  topic :: Topic
  message :: Message

record ('v, 'r) EventBus =
  subscriptions :: "('v, 'r) Subscription list"
  messageQueue :: "MessageEvent list"
  dispatchThread :: bool
  running :: bool
  handlerIdCounter :: HandlerId

text \<open>The constructor: \<^verbatim>\<open>running_(false), handlerIdCounter_(0)\<close>, nothing else.\<close>

definition EventBus_init :: "('v, 'r) EventBus" where
  "EventBus_init =
     \<lparr>subscriptions = [], messageQueue = [], dispatchThread = False,
      running = False, handlerIdCounter = 0\<rparr>"

text \<open>
  \<^verbatim>\<open>subscribe<T>\<close> (EventBus.h, lines 128-154). \<^verbatim>\<open>++handlerIdCounter_\<close> is arithmetic
  on \<^verbatim>\<open>size_t\<close>: it wraps.
\<close>

definition subscribe ::
  "type_info \<Rightarrow> Topic \<Rightarrow> ('v, 'r) typed_handler \<Rightarrow> 32 word \<Rightarrow> ('v, 'r) EventBus
   \<Rightarrow> HandlerId \<times> ('v, 'r) EventBus" where
  "subscribe T pat h prio bus =
     (let i = handlerIdCounter bus + 1 in
      (i, bus\<lparr>handlerIdCounter := i,
              subscriptions := stable_sort (subscriptions bus @
                [\<lparr>sub_id = i, topicPattern = pat, handler = wrappedHandler T h,
                  priority = prio\<rparr>])\<rparr>))"

text \<open>
  \<^verbatim>\<open>std::remove_if\<close> moves the elements that fail the predicate to the front, in their
  order; \<^verbatim>\<open>erase\<close> drops the rest. \<^verbatim>\<open>unsubscribe\<close> is EventBus.cpp, lines 26-32.
\<close>

fun remove_if :: "('a \<Rightarrow> bool) \<Rightarrow> 'a list \<Rightarrow> 'a list" where
  "remove_if p [] = []"
| "remove_if p (x # xs) = (if p x then remove_if p xs else x # remove_if p xs)"

definition unsubscribe :: "HandlerId \<Rightarrow> ('v, 'r) EventBus \<Rightarrow> ('v, 'r) EventBus" where
  "unsubscribe i bus =
     bus\<lparr>subscriptions := remove_if (\<lambda>sub. sub_id sub = i) (subscriptions bus)\<rparr>"

text \<open>
  The snapshot loop of \<^verbatim>\<open>post\<close> (EventBus.h, lines 165-169) and of \<^verbatim>\<open>dispatchLoop\<close>
  (EventBus.cpp, lines 61-65): \<open>handlers\<close> is the vector filled by \<^verbatim>\<open>push_back\<close>.
\<close>

fun collect ::
  "('v, 'r) Subscription list \<Rightarrow> Topic \<Rightarrow> ('v, 'r) Subscription list
   \<Rightarrow> fault + ('v, 'r) Subscription list" where
  "collect [] tp handlers = Inr handlers"
| "collect (sub # rest) tp handlers =
     (case isTopicMatch (topicPattern sub) tp of
        Inl f \<Rightarrow> Inl f
      | Inr b \<Rightarrow> collect rest tp (if b then handlers @ [sub] else handlers))"

text \<open>
  A record of one call of an adapted handler, kept beside the run (it is not a value of
  the program): the subscription's identifier, the store at the call and what the call did.
\<close>

type_synonym ('v, 'r) call = "HandlerId \<times> 'v heap \<times> 'r outcome"

text \<open>
  The body of the \<^verbatim>\<open>try\<close> in \<^verbatim>\<open>post\<close> and its \<^verbatim>\<open>catch (std::exception e)\<close>:
  \<^verbatim>\<open>result->isValid()\<close> dereferences the returned pointer.
\<close>

fun post_try :: "'r outcome \<Rightarrow> 'r Response list \<Rightarrow> fault + 'r Response list" where
  "post_try (Returns None) results = Inl UndefinedBehaviour"
| "post_try (Returns (Some result)) results =
     Inr (if isValid result then results @ [result] else results)"
| "post_try (Throws (std_exception w)) results = Inr results"
| "post_try (Throws foreign_exception) results = Inl (Uncaught foreign_exception)"

fun post_deliver ::
  "('v, 'r) Subscription list \<Rightarrow> Message \<Rightarrow> 'v heap \<Rightarrow> 'r Response list \<Rightarrow> ('v, 'r) call list
   \<Rightarrow> (fault + 'r Response list) \<times> 'v heap \<times> ('v, 'r) call list" where
  "post_deliver [] msg h results calls = (Inr results, h, calls)"
| "post_deliver (sub # rest) msg h results calls =
     (case handler sub msg h of
        (out, h') \<Rightarrow>
          (case post_try out results of
             Inl f \<Rightarrow> (Inl f, h', calls @ [(sub_id sub, h, out)])
           | Inr results' \<Rightarrow>
               post_deliver rest msg h' results' (calls @ [(sub_id sub, h, out)])))"

text \<open>\<^verbatim>\<open>post<T>\<close> (EventBus.h, lines 156-185).\<close>

definition post ::
  "type_info \<Rightarrow> Topic \<Rightarrow> 'v \<Rightarrow> ('v, 'r) EventBus \<Rightarrow> 'v heap
   \<Rightarrow> (fault + 'r Response list) \<times> 'v heap \<times> ('v, 'r) call list" where
  "post T tp m bus h =
     (case TypedMessage T m h of
        (msg, h1) \<Rightarrow>
          (case collect (subscriptions bus) tp [] of
             Inl f \<Rightarrow> (Inl f, h1, [])
           | Inr handlers \<Rightarrow> post_deliver handlers msg h1 [] []))"

text \<open>\<^verbatim>\<open>postAsync<T>\<close> (EventBus.h, lines 187-196).\<close>

definition postAsync ::
  "type_info \<Rightarrow> Topic \<Rightarrow> 'v \<Rightarrow> ('v, 'r) EventBus \<Rightarrow> 'v heap \<Rightarrow> ('v, 'r) EventBus \<times> 'v heap" where
  "postAsync T tp m bus h =
     (case TypedMessage T m h of
        (msg, h1) \<Rightarrow>
          (bus\<lparr>messageQueue := messageQueue bus @ [\<lparr>topic = tp, message = msg\<rparr>]\<rparr>, h1))"

subsection \<open>The background worker\<close>

text \<open>
  The worker discards what a handler returns (EventBus.cpp, lines 68-74), so a null
  pointer is never dereferenced there.
\<close>

fun worker_try :: "'r outcome \<Rightarrow> fault + unit" where
  "worker_try (Returns r) = Inr ()"
| "worker_try (Throws (std_exception w)) = Inr ()"
| "worker_try (Throws foreign_exception) = Inl (Uncaught foreign_exception)"

fun worker_deliver ::
  "('v, 'r) Subscription list \<Rightarrow> Message \<Rightarrow> 'v heap \<Rightarrow> ('v, 'r) call list
   \<Rightarrow> (fault + unit) \<times> 'v heap \<times> ('v, 'r) call list" where
  "worker_deliver [] msg h calls = (Inr (), h, calls)"
| "worker_deliver (sub # rest) msg h calls =
     (case handler sub msg h of
        (out, h') \<Rightarrow>
          (case worker_try out of
             Inl f \<Rightarrow> (Inl f, h', calls @ [(sub_id sub, h, out)])
           | Inr u \<Rightarrow> worker_deliver rest msg h' (calls @ [(sub_id sub, h, out)])))"

text \<open>
  \<^verbatim>\<open>start\<close> (EventBus.cpp, lines 11-15) creates the thread that runs \<^verbatim>\<open>dispatchLoop\<close>
  from its head.
\<close>

definition start :: "('v, 'r) EventBus \<Rightarrow> ('v, 'r) EventBus" where
  "start bus = (if \<not> running bus then bus\<lparr>running := True, dispatchThread := True\<rparr> else bus)"

text \<open>
  \<^verbatim>\<open>dispatchLoop\<close> (EventBus.cpp, lines 43-76), run with no other thread in between
  until it returns, blocks in \<^verbatim>\<open>cv_.wait\<close> or dies of an escaped fault. The worker is
  either at the loop head (line 44) or inside the wait (line 48), where a notification
  resumes it. The last argument lists the messages dispatched so far, each with the calls
  made for it. Here nothing but the worker changes the bus; \<open>worker_run\<close> below runs the
  same loop, pass by pass, among handlers that call back into the bus and other threads.
\<close>

datatype worker_pc = LoopHead | InWait

datatype worker_end = Exited | Blocked | Crashed fault

function dispatchLoop ::
  "worker_pc \<Rightarrow> ('v, 'r) EventBus \<Rightarrow> 'v heap \<Rightarrow> (MessageEvent \<times> ('v, 'r) call list) list
   \<Rightarrow> worker_end \<times> ('v, 'r) EventBus \<times> 'v heap \<times> (MessageEvent \<times> ('v, 'r) call list) list" where
  "dispatchLoop LoopHead bus h served =
     (if running bus then dispatchLoop InWait bus h served else (Exited, bus, h, served))"
| "dispatchLoop InWait bus h served =
     (if \<not> (\<not> running bus \<or> messageQueue bus \<noteq> []) then (Blocked, bus, h, served)
      else if \<not> running bus then (Exited, bus, h, served)
      else
        (case messageQueue bus of
           [] \<Rightarrow> (Crashed UndefinedBehaviour, bus, h, served)
         | event # queue \<Rightarrow>
             (case collect (subscriptions bus) (topic event) [] of
                Inl f \<Rightarrow> (Crashed f, bus\<lparr>messageQueue := queue\<rparr>, h, served)
              | Inr handlers \<Rightarrow>
                  (case worker_deliver handlers (message event) h [] of
                     (Inl f, h', calls) \<Rightarrow>
                       (Crashed f, bus\<lparr>messageQueue := queue\<rparr>, h', served @ [(event, calls)])
                   | (Inr u, h', calls) \<Rightarrow>
                       dispatchLoop LoopHead (bus\<lparr>messageQueue := queue\<rparr>) h'
                         (served @ [(event, calls)])))))"
  by pat_completeness auto
termination
  by (relation "measure (\<lambda>(pc, bus, h, served).
        2 * length (messageQueue bus) + (case pc of LoopHead \<Rightarrow> 1 | InWait \<Rightarrow> 0))")
     auto

text \<open>
  \<^verbatim>\<open>stop\<close> (EventBus.cpp, lines 17-24) clears \<^verbatim>\<open>running_\<close>; when it was set,
  \<^verbatim>\<open>notify_all\<close> wakes the worker and \<^verbatim>\<open>join\<close> waits until \<^verbatim>\<open>dispatchLoop\<close> has
  returned. The worker stands at \<open>pc\<close> when \<^verbatim>\<open>stop\<close> is called; the result tells how its
  loop ended and what it dispatched meanwhile.
\<close>

definition stop ::
  "worker_pc \<Rightarrow> ('v, 'r) EventBus \<Rightarrow> 'v heap
   \<Rightarrow> worker_end \<times> ('v, 'r) EventBus \<times> 'v heap \<times> (MessageEvent \<times> ('v, 'r) call list) list" where
  "stop pc bus h =
     (if running bus then
        (case dispatchLoop pc (bus\<lparr>running := False\<rparr>) h [] of
           (e, bus', h', served) \<Rightarrow> (e, bus'\<lparr>dispatchThread := False\<rparr>, h', served))
      else (Exited, bus, h, []))"

text \<open>
  One pass through the body of the loop of \<^verbatim>\<open>dispatchLoop\<close> (EventBus.cpp, lines
  44-75), from the loop head or from inside the wait: the worker returns, stays in the
  wait, dies of an escaped fault, or has dispatched the front message and goes round.
  Within a pass the worker reads the flag and the queue under \<^verbatim>\<open>queueMutex_\<close>, copies
  the matching subscriptions under \<^verbatim>\<open>subscriptionMutex_\<close> and then calls the handlers
  of this copy with no lock held. So what those handlers do to the bus by calling back
  into it is seen by the next pass only; and an operation of another thread that falls
  inside a pass has the effect it would have had just before the pass, when it changes
  the registry, or just after it, when it changes the queue or the flag.
\<close>

datatype pass_end = Return | Wait | Die fault | Loop

definition dispatchLoop_body ::
  "worker_pc \<Rightarrow> ('v, 'r) EventBus \<Rightarrow> 'v heap \<Rightarrow> (MessageEvent \<times> ('v, 'r) call list) list
   \<Rightarrow> pass_end \<times> ('v, 'r) EventBus \<times> 'v heap \<times> (MessageEvent \<times> ('v, 'r) call list) list" where
  "dispatchLoop_body pc bus h served =
     (if pc = LoopHead \<and> \<not> running bus then (Return, bus, h, served)
      else if \<not> (\<not> running bus \<or> messageQueue bus \<noteq> []) then (Wait, bus, h, served)
      else if \<not> running bus then (Return, bus, h, served)
      else
        (case messageQueue bus of
           [] \<Rightarrow> (Die UndefinedBehaviour, bus, h, served)
         | event # queue \<Rightarrow>
             (case collect (subscriptions bus) (topic event) [] of
                Inl f \<Rightarrow> (Die f, bus\<lparr>messageQueue := queue\<rparr>, h, served)
              | Inr handlers \<Rightarrow>
                  (case worker_deliver handlers (message event) h [] of
                     (Inl f, h', calls) \<Rightarrow>
                       (Die f, bus\<lparr>messageQueue := queue\<rparr>, h', served @ [(event, calls)])
                   | (Inr u, h', calls) \<Rightarrow>
                       (Loop, bus\<lparr>messageQueue := queue\<rparr>, h', served @ [(event, calls)])))))"

text \<open>
  The worker among other activity. After each pass the bus and the payload store are
  changed by the next element of \<open>envs\<close>: what the handlers of that pass did by calling
  \<^verbatim>\<open>postAsync\<close>, \<^verbatim>\<open>subscribe\<close>, \<^verbatim>\<open>unsubscribe\<close> or \<^verbatim>\<open>stop\<close> (Main.cpp, lines
  68-77, posts from inside a handler), and what other threads did until the worker reads
  the bus again (after a pass that stays in the wait: until it is woken). When \<open>envs\<close>
  is used up the worker runs on undisturbed, which is \<open>dispatchLoop\<close>.
\<close>

fun worker_run ::
  "(('v, 'r) EventBus \<times> 'v heap \<Rightarrow> ('v, 'r) EventBus \<times> 'v heap) list
   \<Rightarrow> worker_pc \<Rightarrow> ('v, 'r) EventBus \<Rightarrow> 'v heap
   \<Rightarrow> (MessageEvent \<times> ('v, 'r) call list) list
   \<Rightarrow> worker_end \<times> ('v, 'r) EventBus \<times> 'v heap \<times> (MessageEvent \<times> ('v, 'r) call list) list" where
  "worker_run [] pc bus h served = dispatchLoop pc bus h served"
| "worker_run (env # envs) pc bus h served =
     (case dispatchLoop_body pc bus h served of
        (Return, bus', h', served') \<Rightarrow> (Exited, bus', h', served')
      | (Wait, bus', h', served') \<Rightarrow>
          worker_run envs InWait (fst (env (bus', h'))) (snd (env (bus', h'))) served'
      | (Die f, bus', h', served') \<Rightarrow> (Crashed f, bus', h', served')
      | (Loop, bus', h', served') \<Rightarrow>
          worker_run envs LoopHead (fst (env (bus', h'))) (snd (env (bus', h'))) served')"

subsection \<open>Sequences of registry operations\<close>

text \<open>
  A run of \<^verbatim>\<open>subscribe\<close> and \<^verbatim>\<open>unsubscribe\<close> calls; beside the bus it keeps the
  identifiers that \<^verbatim>\<open>subscribe\<close> returned, in the order of the calls.
\<close>

datatype ('v, 'r) registry_op =
  Subscribe type_info Topic "('v, 'r) typed_handler" "32 word"
| Unsubscribe HandlerId

fun is_Subscribe :: "('v, 'r) registry_op \<Rightarrow> bool" where
  "is_Subscribe (Subscribe T pat h prio) = True"
| "is_Subscribe (Unsubscribe i) = False"

fun apply_op ::
  "('v, 'r) registry_op \<Rightarrow> ('v, 'r) EventBus \<times> HandlerId list
   \<Rightarrow> ('v, 'r) EventBus \<times> HandlerId list" where
  "apply_op (Subscribe T pat h prio) (bus, ids) =
     (case subscribe T pat h prio bus of (i, bus') \<Rightarrow> (bus', ids @ [i]))"
| "apply_op (Unsubscribe i) (bus, ids) = (unsubscribe i bus, ids)"

fun run_ops ::
  "('v, 'r) registry_op list \<Rightarrow> ('v, 'r) EventBus \<times> HandlerId list
   \<Rightarrow> ('v, 'r) EventBus \<times> HandlerId list" where
  "run_ops [] st = st"
| "run_ops (op # ops) st = run_ops ops (apply_op op st)"

subsection \<open>Vocabulary of the claims\<close>

text \<open>
  The responses that a list of calls contributes according to the specification: the
  capsule of every call that returned one reporting \<^verbatim>\<open>isValid() == true\<close>.
\<close>

fun valid_response :: "'r outcome \<Rightarrow> 'r Response list" where
  "valid_response (Returns (Some r)) = (if isValid r then [r] else [])"
| "valid_response (Returns None) = []"
| "valid_response (Throws e) = []"

definition valid_responses :: "('v, 'r) call list \<Rightarrow> 'r Response list" where
  "valid_responses calls = concat (map (\<lambda>c. valid_response (snd (snd c))) calls)"

text \<open>
  A call that neither returns a null pointer nor throws a value that does not derive from
  \<^verbatim>\<open>std::exception\<close>.
\<close>

definition well_behaved :: "'r outcome \<Rightarrow> bool" where
  "well_behaved out = (out \<noteq> Returns None \<and> out \<noteq> Throws foreign_exception)"

text \<open>
  A recorded call is the call of a given subscription's handler on the envelope: it
  bears the subscription's identifier and its outcome is what that handler does on the
  store of the call.
\<close>

definition call_of :: "Message \<Rightarrow> ('v, 'r) Subscription \<Rightarrow> ('v, 'r) call \<Rightarrow> bool" where
  "call_of msg sub c =
     (fst c = sub_id sub \<and> snd (snd c) = fst (handler sub msg (fst (snd c))))"

text \<open>
  What a recorded call hands to the original handler of a subscription, on an envelope
  whose cell holds \<open>m\<close>: the call is the subscription's; where the subscription's handler
  is the adapter of \<open>f\<close> for the type T, the call's outcome is, on an envelope of type T,
  what \<open>f\<close> does with the address of a new cell (one past the store of the call) that
  holds \<open>m\<close>, and on an envelope of another type the void capsule, without \<open>f\<close>.
\<close>

definition delivers ::
  "Message \<Rightarrow> 'v \<Rightarrow> ('v, 'r) Subscription \<Rightarrow> ('v, 'r) call \<Rightarrow> bool" where
  "delivers msg m sub c =
     (fst c = sub_id sub
      \<and> (\<forall>T f. handler sub = wrappedHandler T f \<longrightarrow>
            snd (snd c) =
              (if T = type_id msg
               then fst (f (length (fst (snd c))) (fst (snd c) @ [m]))
               else Returns (Some (Void TypedResponse_void_default)))))"

text \<open>
  The order of the registry that the specification words: by priority, and for equal
  priorities by identifier. A strict relation: \<open>sorted_wrt\<close> of it also says that no two
  entries agree on both.
\<close>

definition by_priority_then_id :: "('v, 'r) Subscription \<Rightarrow> ('v, 'r) Subscription \<Rightarrow> bool" where
  "by_priority_then_id a b =
     (sint (priority a) < sint (priority b)
      \<or> (sint (priority a) = sint (priority b) \<and> sub_id a < sub_id b))"

text \<open>
  The registry invariant of the specification, on a bus and the identifiers issued so far
  in the order of issue: live identifiers are unique and were issued; the identifiers
  issued are strictly increasing (so none is issued twice) and above 0; the registry is
  ordered by priority and, for equal priorities, by identifier, that is by registration.
\<close>

definition registry_invariant :: "('v, 'r) EventBus \<times> HandlerId list \<Rightarrow> bool" where
  "registry_invariant st =
     (distinct (map sub_id (subscriptions (fst st)))
      \<and> set (map sub_id (subscriptions (fst st))) \<subseteq> set (snd st)
      \<and> sorted_wrt (<) (snd st)
      \<and> (\<forall>i\<in>set (snd st). 0 < i)
      \<and> sorted_wrt by_priority_then_id (subscriptions (fst st)))"

text \<open>No identifier issued so far exceeds the counter.\<close>

definition counter_bound :: "('v, 'r) EventBus \<times> HandlerId list \<Rightarrow> bool" where
  "counter_bound st = (\<forall>i\<in>set (snd st). i \<le> handlerIdCounter (fst st))"

text \<open>
  A handler that writes to the store only through the pointer it is given: it may
  allocate, and it leaves every other existing cell as it was.
\<close>

definition confined :: "('v, 'r) typed_handler \<Rightarrow> bool" where
  "confined f =
     (\<forall>p h. length h \<le> length (snd (f p h))
            \<and> (\<forall>a<length h. a \<noteq> p \<longrightarrow> snd (f p h) ! a = h ! a))"

text \<open>What \<^verbatim>\<open>subscribe\<close> registers: the adapter of such a handler.\<close>

definition adapted :: "('v, 'r) Subscription \<Rightarrow> bool" where
  "adapted sub = (\<exists>T f. handler sub = wrappedHandler T f \<and> confined f)"

text \<open>A registry operation whose handler, if it has one, is confined.\<close>

fun confined_op :: "('v, 'r) registry_op \<Rightarrow> bool" where
  "confined_op (Subscribe T pat f prio) = confined f"
| "confined_op (Unsubscribe i) = True"

text \<open>The store \<open>h'\<close> still has every cell of \<open>h\<close>, unchanged.\<close>

definition preserves :: "'v heap \<Rightarrow> 'v heap \<Rightarrow> bool" where
  "preserves h h' = (length h \<le> length h' \<and> (\<forall>a<length h. h' ! a = h ! a))"

subsection \<open>A concrete registry\<close>

text \<open>
  Payloads and response values are natural numbers. This handler answers with the payload
  it finds behind its pointer and then overwrites that cell.
\<close>

definition ok_handler :: "(nat, nat) typed_handler" where
  "ok_handler p h = (Returns (Some (Typed (TypedResponse_value (h ! p)))), h[p := 0])"

text \<open>
  Six registrations and one removal: a handler that throws a \<^verbatim>\<open>std::exception\<close>, one
  for another payload type on the global wildcard, one that answers with an invalid
  capsule, and priorities out of registration order.
\<close>

definition ops2 :: "(nat, nat) registry_op list" where
  "ops2 =
    [Subscribe ''TradeEvent'' ''trade.*'' ok_handler 100,
     Subscribe ''TradeEvent'' ''trade.test'' (\<lambda>p h. (Throws (std_exception ''boom''), h)) 10,
     Subscribe ''RiskResult'' ''*'' ok_handler 10,
     Subscribe ''TradeEvent'' ''trade.other'' ok_handler 0,
     Unsubscribe 1,
     Subscribe ''TradeEvent'' ''trade.test''
       (\<lambda>p h. (Returns (Some (Typed (TypedResponse_default 0))), h)) (- 5),
     Subscribe ''TradeEvent'' ''trade.test'' ok_handler 10]"

definition bus2 :: "(nat, nat) EventBus" where
  "bus2 = fst (run_ops ops2 (EventBus_init, []))"

text \<open>
  The handler of the repository's tests: it answers with a default-constructed
  \<^verbatim>\<open>TypedResponse<void>\<close>.
\<close>

definition void_handler :: "(nat, nat) typed_handler" where
  "void_handler p h = (Returns (Some (Void TypedResponse_void_default)), h)"

definition bus_void :: "(nat, nat) EventBus" where
  "bus_void = snd (subscribe ''TradeEvent'' ''trade.test'' void_handler 0 EventBus_init)"

text \<open>A handler that throws a value that does not derive from \<^verbatim>\<open>std::exception\<close>.\<close>

definition foreign_handler :: "(nat, nat) typed_handler" where
  "foreign_handler p h = (Throws foreign_exception, h)"

definition bus_foreign :: "(nat, nat) EventBus" where
  "bus_foreign =
     fst (run_ops [Subscribe ''TradeEvent'' ''trade.test'' foreign_handler 1,
                   Subscribe ''TradeEvent'' ''trade.test'' ok_handler 2] (EventBus_init, []))"

text \<open>
  The bus is started and a message is posted asynchronously; then \<^verbatim>\<open>stop\<close> is called
  while the worker still waits.
\<close>

definition bus_queued :: "(nat, nat) EventBus" where
  "bus_queued = fst (postAsync ''TradeEvent'' ''trade.test'' 7 (start bus2) [])"

definition bus_stopped :: "(nat, nat) EventBus" where
  "bus_stopped = fst (snd (stop InWait bus_queued [7]))"

text \<open>A running bus with two pending messages.\<close>

definition bus_pending :: "(nat, nat) EventBus" where
  "bus_pending =
     fst (postAsync ''TradeEvent'' ''trade.other'' 8
       (fst (postAsync ''TradeEvent'' ''trade.test'' 7 (start bus2) [])) [7])"

text \<open>A running bus whose first handler throws a foreign value, with one pending message.\<close>

definition bus_foreign_pending :: "(nat, nat) EventBus" where
  "bus_foreign_pending = fst (postAsync ''TradeEvent'' ''trade.test'' 7 (start bus_foreign) [])"

section \<open>Proofs\<close>

subsection \<open>The matcher: proofs\<close>

lemma compare3_eq_0_iff: "compare3 a b = 0 \<longleftrightarrow> a = b"
  by (induction a b rule: compare3.induct) auto

lemma compare_prefix:
  "compare tp 0 n pattern 0 n = Inr (compare3 (take n tp) (take n pattern))"
  by (simp add: compare_def)

lemma take_butlast_neq:
  assumes "pattern \<noteq> []" and "take (length pattern - 1) tp \<noteq> take (length pattern - 1) pattern"
  shows "pattern \<noteq> tp"
  using assms by auto

text \<open>
  For every non-empty pattern the code computes the three rules of the specification.
\<close>

lemma isTopicMatch_nonempty_pattern:
  assumes "pattern \<noteq> []"
  shows "isTopicMatch pattern tp = Inr (match_spec pattern tp)"
proof (cases "pattern = ''*''")
  case True
  then show ?thesis by (simp add: isTopicMatch_def match_spec_def)
next
  case False
  show ?thesis
  proof (cases "last pattern = CHR ''*''")
    case star: True
    have "(pattern = tp) = False"
      if "take (length pattern - 1) tp \<noteq> take (length pattern - 1) pattern"
      using take_butlast_neq [OF assms that] by simp
    then show ?thesis
      using assms False star
      by (simp add: isTopicMatch_def match_spec_def string_back_def size_t_minus1_def
          compare_prefix compare3_eq_0_iff)
  next
    case nostar: False
    then show ?thesis
      using assms False
      by (simp add: isTopicMatch_def match_spec_def string_back_def)
  qed
qed

text \<open>
  Claim C2. The specification's matcher returns, for every pattern and topic, the value of
  its three rules; for the empty pattern that is the exact-match rule, which gives false
  on a non-empty topic. The code agrees for every non-empty pattern
  (\<open>isTopicMatch_nonempty_pattern\<close>), but on the empty pattern it calls
  \<^verbatim>\<open>pattern.back()\<close> on an empty string, whose behaviour is undefined, and yields no
  result.
\<close>

theorem isTopicMatch_empty_pattern_no_result:
  "isTopicMatch '''' ''trade.test'' = Inl UndefinedBehaviour
   \<and> match_spec '''' ''trade.test'' = False"
  by (simp add: isTopicMatch_def match_spec_def string_back_def)

text \<open>
  Claim C4. The specification says that the matcher is defined on the empty pattern,
  which reaches the exact-match rule and matches the empty topic only. In the code no
  topic gets an answer from the empty pattern: the call \<^verbatim>\<open>pattern.back()\<close>, undefined
  on the empty string, precedes any check of the length. The matcher is private; it
  receives the empty pattern when a subscription was registered with it, and then every
  \<^verbatim>\<open>post\<close> runs into the undefined call.
\<close>

theorem isTopicMatch_empty_pattern_undefined:
  "isTopicMatch [] tp = Inl UndefinedBehaviour
   \<and> fst (post T tp m (snd (subscribe T' [] f prio EventBus_init)) h) = Inl UndefinedBehaviour"
  by (simp add: isTopicMatch_def string_back_def post_def subscribe_def EventBus_init_def
      stable_sort_def TypedMessage_def make_shared_def Let_def)

subsection \<open>The delivery loops: proofs\<close>

lemma remove_if_filter: "remove_if p xs = filter (\<lambda>x. \<not> p x) xs"
  by (induction xs) auto

lemma collect_result:
  "collect subs tp acc = Inr hs \<Longrightarrow>
   hs = acc @ filter (\<lambda>s. isTopicMatch (topicPattern s) tp = Inr True) subs"
proof (induction subs arbitrary: acc)
  case Nil
  then show ?case by simp
next
  case (Cons sub rest)
  show ?case
  proof (cases "isTopicMatch (topicPattern sub) tp")
    case (Inl f)
    with Cons.prems show ?thesis by simp
  next
    case (Inr b)
    with Cons.prems
    have "collect rest tp (if b then acc @ [sub] else acc) = Inr hs" by simp
    from Cons.IH [OF this] Inr show ?thesis by (cases b) simp_all
  qed
qed

lemma collect_nonempty_patterns:
  "\<forall>s\<in>set subs. topicPattern s \<noteq> [] \<Longrightarrow>
   collect subs tp acc = Inr (acc @ filter (\<lambda>s. match_spec (topicPattern s) tp) subs)"
  by (induction subs arbitrary: acc) (auto simp: isTopicMatch_nonempty_pattern)

lemma isTopicMatch_no_uncaught: "isTopicMatch pattern tp \<noteq> Inl (Uncaught e)"
  by (auto simp: isTopicMatch_def string_back_def compare_def split: sum.splits if_splits)

lemma collect_no_uncaught: "collect subs tp acc \<noteq> Inl (Uncaught e)"
proof (induction subs arbitrary: acc)
  case Nil
  then show ?case by simp
next
  case (Cons sub rest)
  then show ?case
    using isTopicMatch_no_uncaught [of "topicPattern sub" tp e]
    by (cases "isTopicMatch (topicPattern sub) tp") auto
qed

lemma post_try_Inr:
  "post_try out results = Inr results' \<Longrightarrow> results' = results @ valid_response out"
  by (cases "(out, results)" rule: post_try.cases) auto

lemma post_try_well_behaved:
  "well_behaved out \<Longrightarrow> post_try out results = Inr (results @ valid_response out)"
  by (cases "(out, results)" rule: post_try.cases) (auto simp: well_behaved_def)

lemma post_try_no_std: "post_try out results \<noteq> Inl (Uncaught (std_exception w))"
  by (cases "(out, results)" rule: post_try.cases) auto

lemma worker_try_no_std: "worker_try out \<noteq> Inl (Uncaught (std_exception w))"
  by (cases out rule: worker_try.cases) auto

lemma post_deliver_calls_ids:
  "post_deliver subs msg h results calls = (res, h', calls') \<Longrightarrow>
   fst ` set calls' \<subseteq> fst ` set calls \<union> sub_id ` set subs"
proof (induction subs arbitrary: h results calls)
  case Nil
  then show ?case by auto
next
  case (Cons sub rest)
  obtain out h1 where o: "handler sub msg h = (out, h1)" by (cases "handler sub msg h")
  show ?case
  proof (cases "post_try out results")
    case (Inl f)
    with Cons.prems o show ?thesis by auto
  next
    case (Inr results')
    with Cons.prems o
    have "post_deliver rest msg h1 results' (calls @ [(sub_id sub, h, out)]) = (res, h', calls')"
      by simp
    from Cons.IH [OF this] show ?thesis by auto
  qed
qed

lemma post_deliver_no_std:
  "fst (post_deliver subs msg h results calls) \<noteq> Inl (Uncaught (std_exception w))"
proof (induction subs arbitrary: h results calls)
  case Nil
  then show ?case by simp
next
  case (Cons sub rest)
  obtain out h1 where o: "handler sub msg h = (out, h1)" by (cases "handler sub msg h")
  show ?case
    using o Cons.IH post_try_no_std [of out results w]
    by (cases "post_try out results") auto
qed

lemma post_deliver_well_behaved:
  assumes "\<forall>s\<in>set subs. \<forall>h. well_behaved (fst (handler s msg h))"
  shows "\<exists>h' new. post_deliver subs msg h results calls
           = (Inr (results @ valid_responses new), h', calls @ new)
         \<and> list_all2 (\<lambda>s c. call_of msg s c) subs new"
  using assms
proof (induction subs arbitrary: h results calls)
  case Nil
  then show ?case by (simp add: valid_responses_def)
next
  case (Cons sub rest)
  obtain out h1 where o: "handler sub msg h = (out, h1)" by (cases "handler sub msg h")
  have wb: "well_behaved out" using Cons.prems o by (metis fst_conv list.set_intros(1))
  have rest: "\<forall>s\<in>set rest. \<forall>h. well_behaved (fst (handler s msg h))"
    using Cons.prems by simp
  from Cons.IH [OF rest, of h1 "results @ valid_response out" "calls @ [(sub_id sub, h, out)]"]
  obtain h' new where
    d: "post_deliver rest msg h1 (results @ valid_response out) (calls @ [(sub_id sub, h, out)])
        = (Inr ((results @ valid_response out) @ valid_responses new), h',
           (calls @ [(sub_id sub, h, out)]) @ new)"
    and l: "list_all2 (\<lambda>s c. call_of msg s c) rest new"
    by blast
  have "post_deliver (sub # rest) msg h results calls
        = (Inr (results @ valid_responses ((sub_id sub, h, out) # new)), h',
           calls @ (sub_id sub, h, out) # new)"
    using o d post_try_well_behaved [OF wb, of results] by (simp add: valid_responses_def)
  moreover have "list_all2 (\<lambda>s c. call_of msg s c) (sub # rest) ((sub_id sub, h, out) # new)"
    using l o by (simp add: call_of_def)
  ultimately show ?case by blast
qed

subsection \<open>The registry: proofs\<close>

text \<open>The contract of \<^verbatim>\<open>std::stable_sort\<close>, in terms of \<^verbatim>\<open>operator<\<close>.\<close>

lemma stable_sort_contract:
  "mset (stable_sort xs) = mset xs"
  "sorted_wrt (\<lambda>a b. \<not> less_Subscription b a) (stable_sort xs)"
  "filter (\<lambda>y. \<not> less_Subscription x y \<and> \<not> less_Subscription y x) (stable_sort xs)
     = filter (\<lambda>y. \<not> less_Subscription x y \<and> \<not> less_Subscription y x) xs"
proof -
  show "mset (stable_sort xs) = mset xs" by (simp add: stable_sort_def)
  have "sorted (map (\<lambda>s. sint (priority s)) (stable_sort xs))"
    by (simp add: stable_sort_def)
  then show "sorted_wrt (\<lambda>a b. \<not> less_Subscription b a) (stable_sort xs)"
    by (simp add: sorted_wrt_map less_Subscription_def not_less)
  have "(\<lambda>y. \<not> less_Subscription x y \<and> \<not> less_Subscription y x)
        = (\<lambda>y. sint (priority y) = sint (priority x))"
    by (auto simp: less_Subscription_def)
  then show "filter (\<lambda>y. \<not> less_Subscription x y \<and> \<not> less_Subscription y x) (stable_sort xs)
     = filter (\<lambda>y. \<not> less_Subscription x y \<and> \<not> less_Subscription y x) xs"
    by (simp add: stable_sort_def sort_key_stable)
qed

lemma sorted_lex_intro:
  assumes "sorted (map (\<lambda>s. sint (priority s)) xs)"
    and "\<And>k. sorted_wrt (\<lambda>a b. sub_id a < sub_id b) (filter (\<lambda>s. sint (priority s) = k) xs)"
  shows "sorted_wrt by_priority_then_id xs"
  using assms
proof (induction xs)
  case Nil
  then show ?case by simp
next
  case (Cons x xs)
  have tail: "sorted_wrt by_priority_then_id xs"
  proof (rule Cons.IH)
    show "sorted (map (\<lambda>s. sint (priority s)) xs)" using Cons.prems(1) by simp
    show "sorted_wrt (\<lambda>a b. sub_id a < sub_id b) (filter (\<lambda>s. sint (priority s) = k) xs)" for k
      using Cons.prems(2) [of k] by (cases "sint (priority x) = k") simp_all
  qed
  have "by_priority_then_id x y" if y: "y \<in> set xs" for y
  proof (cases "sint (priority x) = sint (priority y)")
    case True
    have "sub_id x < sub_id y"
      using Cons.prems(2) [of "sint (priority x)"] y True by auto
    with True show ?thesis by (simp add: by_priority_then_id_def)
  next
    case False
    moreover have "sint (priority x) \<le> sint (priority y)" using Cons.prems(1) y by auto
    ultimately show ?thesis by (simp add: by_priority_then_id_def)
  qed
  with tail show ?case by simp
qed

lemma sorted_lex_filter:
  assumes "sorted_wrt by_priority_then_id xs"
  shows "sorted_wrt (\<lambda>a b. sub_id a < sub_id b) (filter (\<lambda>s. sint (priority s) = k) xs)"
proof -
  have "sorted_wrt by_priority_then_id (filter (\<lambda>s. sint (priority s) = k) xs)"
    using assms by (rule sorted_wrt_filter)
  then show ?thesis
    by (rule sorted_wrt_mono_rel [rotated]) (auto simp: by_priority_then_id_def)
qed

lemma stable_sort_append_sorted:
  assumes "sorted_wrt by_priority_then_id xs" and "\<forall>s\<in>set xs. sub_id s < sub_id x"
  shows "sorted_wrt by_priority_then_id (stable_sort (xs @ [x]))"
proof (rule sorted_lex_intro)
  show "sorted (map (\<lambda>s. sint (priority s)) (stable_sort (xs @ [x])))"
    by (simp add: stable_sort_def)
  show "sorted_wrt (\<lambda>a b. sub_id a < sub_id b)
          (filter (\<lambda>s. sint (priority s) = k) (stable_sort (xs @ [x])))" for k
  proof -
    have "filter (\<lambda>s. sint (priority s) = k) (stable_sort (xs @ [x]))
          = filter (\<lambda>s. sint (priority s) = k) (xs @ [x])"
      unfolding stable_sort_def by (rule sort_key_stable)
    moreover have "sorted_wrt (\<lambda>a b. sub_id a < sub_id b)
          (filter (\<lambda>s. sint (priority s) = k) (xs @ [x]))"
      using sorted_lex_filter [OF assms(1), of k] assms(2)
      by (auto simp: sorted_wrt_append)
    ultimately show ?thesis by simp
  qed
qed

lemma set_stable_sort: "set (stable_sort xs) = set xs"
  by (simp add: stable_sort_def)

lemma distinct_ids_stable_sort:
  "distinct (map sub_id (stable_sort xs)) = distinct (map sub_id xs)"
proof -
  have "mset (map sub_id (stable_sort xs)) = mset (map sub_id xs)"
    by (simp add: stable_sort_def)
  then show ?thesis by (rule mset_eq_imp_distinct_iff)
qed

lemma word64_succ:
  fixes c :: "64 word"
  assumes "unat c + 1 < 2 ^ 64"
  shows "unat (c + 1) = unat c + 1" and "c < c + 1" and "0 < c + 1"
proof -
  have "unat c + unat (1 :: 64 word) < 2 ^ LENGTH(64)" using assms by simp
  then have "unat (c + 1) = unat c + unat (1 :: 64 word)" by (simp only: unat_add_lem)
  then show u: "unat (c + 1) = unat c + 1" by simp
  then show "c < c + 1" by (simp add: word_less_nat_alt)
  from u show "0 < c + 1" by (simp add: word_less_nat_alt)
qed

lemma subscribe_invariant:
  assumes inv: "registry_invariant (bus, ids)" and cb: "counter_bound (bus, ids)"
    and room: "unat (handlerIdCounter bus) + 1 < 2 ^ 64"
  shows "registry_invariant (apply_op (Subscribe T pat f prio) (bus, ids))"
    and "counter_bound (apply_op (Subscribe T pat f prio) (bus, ids))"
    and "unat (handlerIdCounter (fst (apply_op (Subscribe T pat f prio) (bus, ids))))
         = unat (handlerIdCounter bus) + 1"
proof -
  let ?c = "handlerIdCounter bus"
  let ?new = "\<lparr>sub_id = ?c + 1, topicPattern = pat, handler = wrappedHandler T f, priority = prio\<rparr>"
  have st: "apply_op (Subscribe T pat f prio) (bus, ids)
        = (bus\<lparr>handlerIdCounter := ?c + 1,
                subscriptions := stable_sort (subscriptions bus @ [?new])\<rparr>, ids @ [?c + 1])"
    by (simp add: subscribe_def Let_def)
  have lt: "?c < ?c + 1" and pos: "0 < ?c + 1" using word64_succ [OF room] by blast+
  have old: "\<forall>i\<in>set ids. i < ?c + 1"
    using cb lt by (auto simp: counter_bound_def)
  have sub_old: "\<forall>s\<in>set (subscriptions bus). sub_id s < ?c + 1"
    using inv old by (auto simp: registry_invariant_def)
  have d: "distinct (map sub_id (subscriptions bus @ [?new]))"
    using inv sub_old by (auto simp: registry_invariant_def)
  have s: "sorted_wrt by_priority_then_id (stable_sort (subscriptions bus @ [?new]))"
    using inv sub_old by (intro stable_sort_append_sorted) (auto simp: registry_invariant_def)
  have i: "sorted_wrt (<) (ids @ [?c + 1])"
    using inv old by (auto simp: registry_invariant_def sorted_wrt_append)
  show "registry_invariant (apply_op (Subscribe T pat f prio) (bus, ids))"
    unfolding st registry_invariant_def
    using inv d s i pos
    by (auto simp: distinct_ids_stable_sort set_stable_sort registry_invariant_def)
  show "counter_bound (apply_op (Subscribe T pat f prio) (bus, ids))"
    unfolding st counter_bound_def using old by auto
  show "unat (handlerIdCounter (fst (apply_op (Subscribe T pat f prio) (bus, ids))))
         = unat (handlerIdCounter bus) + 1"
    unfolding st using word64_succ(1) [OF room] by simp
qed

lemma unsubscribe_invariant:
  assumes inv: "registry_invariant (bus, ids)" and cb: "counter_bound (bus, ids)"
  shows "registry_invariant (apply_op (Unsubscribe i) (bus, ids))"
    and "counter_bound (apply_op (Unsubscribe i) (bus, ids))"
    and "handlerIdCounter (fst (apply_op (Unsubscribe i) (bus, ids))) = handlerIdCounter bus"
proof -
  show "registry_invariant (apply_op (Unsubscribe i) (bus, ids))"
    using inv
    by (auto simp: registry_invariant_def unsubscribe_def remove_if_filter
        distinct_map_filter sorted_wrt_filter)
  show "counter_bound (apply_op (Unsubscribe i) (bus, ids))"
    using cb by (simp add: counter_bound_def unsubscribe_def)
  show "handlerIdCounter (fst (apply_op (Unsubscribe i) (bus, ids))) = handlerIdCounter bus"
    by (simp add: unsubscribe_def)
qed

lemma run_ops_invariant:
  assumes "registry_invariant st" and "counter_bound st"
    and "unat (handlerIdCounter (fst st)) + length (filter is_Subscribe ops) < 2 ^ 64"
  shows "registry_invariant (run_ops ops st) \<and> counter_bound (run_ops ops st)"
  using assms
proof (induction ops arbitrary: st)
  case Nil
  then show ?case by simp
next
  case (Cons op ops)
  obtain bus ids where st: "st = (bus, ids)" by (cases st)
  show ?case
  proof (cases op)
    case (Subscribe T pat f prio)
    have room: "unat (handlerIdCounter bus) + 1 < 2 ^ 64"
      using Cons.prems(3) st Subscribe by simp
    note step = subscribe_invariant [OF Cons.prems(1,2) [unfolded st] room, of T pat f prio]
    have "unat (handlerIdCounter (fst (apply_op op st))) + length (filter is_Subscribe ops) < 2 ^ 64"
      using Cons.prems(3) step(3) st Subscribe by simp
    with step(1,2) show ?thesis
      using Cons.IH [of "apply_op op st"] st Subscribe by simp
  next
    case (Unsubscribe i)
    note step = unsubscribe_invariant [OF Cons.prems(1,2) [unfolded st], of i]
    have "unat (handlerIdCounter (fst (apply_op op st))) + length (filter is_Subscribe ops) < 2 ^ 64"
      using Cons.prems(3) step(3) st Unsubscribe by simp
    with step(1,2) show ?thesis
      using Cons.IH [of "apply_op op st"] st Unsubscribe by simp
  qed
qed

subsection \<open>The worker: proofs\<close>

lemma worker_deliver_calls_ids:
  "worker_deliver subs msg h calls = (res, h', calls') \<Longrightarrow>
   fst ` set calls' \<subseteq> fst ` set calls \<union> sub_id ` set subs"
proof (induction subs arbitrary: h calls)
  case Nil
  then show ?case by auto
next
  case (Cons sub rest)
  obtain out h1 where o: "handler sub msg h = (out, h1)" by (cases "handler sub msg h")
  show ?case
  proof (cases "worker_try out")
    case (Inl f)
    with Cons.prems o show ?thesis by auto
  next
    case (Inr u)
    with Cons.prems o
    have "worker_deliver rest msg h1 (calls @ [(sub_id sub, h, out)]) = (res, h', calls')"
      by simp
    from Cons.IH [OF this] show ?thesis by auto
  qed
qed

lemma worker_deliver_no_std:
  "fst (worker_deliver subs msg h calls) \<noteq> Inl (Uncaught (std_exception w))"
proof (induction subs arbitrary: h calls)
  case Nil
  then show ?case by simp
next
  case (Cons sub rest)
  obtain out h1 where o: "handler sub msg h = (out, h1)" by (cases "handler sub msg h")
  show ?case
    using o Cons.IH worker_try_no_std [of out w]
    by (cases "worker_try out") auto
qed

lemma worker_deliver_no_foreign:
  assumes "\<forall>s\<in>set subs. \<forall>h. fst (handler s msg h) \<noteq> Throws foreign_exception"
  shows "\<exists>h' calls'. worker_deliver subs msg h calls = (Inr (), h', calls')"
  using assms
proof (induction subs arbitrary: h calls)
  case Nil
  then show ?case by simp
next
  case (Cons sub rest)
  obtain out h1 where o: "handler sub msg h = (out, h1)" by (cases "handler sub msg h")
  have "out \<noteq> Throws foreign_exception" using Cons.prems o by (metis fst_conv list.set_intros(1))
  then have t: "worker_try out = Inr ()" by (cases out rule: worker_try.cases) auto
  have "\<forall>s\<in>set rest. \<forall>h. fst (handler s msg h) \<noteq> Throws foreign_exception"
    using Cons.prems by simp
  from Cons.IH [OF this, of h1 "calls @ [(sub_id sub, h, out)]"] o t show ?case by simp
qed

lemma dispatchLoop_stopped:
  "\<not> running bus \<Longrightarrow> dispatchLoop pc bus h served = (Exited, bus, h, served)"
  by (cases pc) simp_all

lemma dispatchLoop_running_not_Exited:
  "running bus \<Longrightarrow> fst (dispatchLoop pc bus h served) \<noteq> Exited"
proof (induction pc bus h served rule: dispatchLoop.induct)
  case (1 bus h served)
  then show ?case by simp
next
  case (2 bus h served)
  show ?case
  proof (cases "messageQueue bus")
    case Nil
    with 2 show ?thesis by simp
  next
    case (Cons event queue)
    show ?thesis
    proof (cases "collect (subscriptions bus) (topic event) []")
      case (Inl f)
      with 2 Cons show ?thesis by simp
    next
      case (Inr handlers)
      obtain res h' calls where w: "worker_deliver handlers (message event) h [] = (res, h', calls)"
        by (cases "worker_deliver handlers (message event) h []")
      show ?thesis
      proof (cases res)
        case (Inl f)
        with 2 Cons Inr w show ?thesis by simp
      next
        case r: (Inr u)
        have "fst (dispatchLoop LoopHead (bus\<lparr>messageQueue := queue\<rparr>) h' (served @ [(event, calls)])) \<noteq> Exited"
          using "2.IH" [OF _ _ Cons Inr w [symmetric, unfolded r] refl refl] "2.prems" Cons
          by simp
        with 2 Cons Inr w r show ?thesis by simp
      qed
    qed
  qed
qed

lemma dispatchLoop_no_std:
  "fst (dispatchLoop pc bus h served) \<noteq> Crashed (Uncaught (std_exception w))"
proof (induction pc bus h served rule: dispatchLoop.induct)
  case (1 bus h served)
  then show ?case by simp
next
  case (2 bus h served)
  show ?case
  proof (cases "messageQueue bus")
    case Nil
    then show ?thesis by simp
  next
    case (Cons event queue)
    show ?thesis
    proof (cases "collect (subscriptions bus) (topic event) []")
      case (Inl f)
      with Cons collect_no_uncaught [of "subscriptions bus" "topic event" "[]" "std_exception w"]
      show ?thesis by auto
    next
      case (Inr handlers)
      obtain res h' calls where w: "worker_deliver handlers (message event) h [] = (res, h', calls)"
        by (cases "worker_deliver handlers (message event) h []")
      show ?thesis
      proof (cases res)
        case (Inl f)
        with Cons Inr w worker_deliver_no_std [of handlers "message event" h "[]" w]
        show ?thesis by auto
      next
        case r: (Inr u)
        show ?thesis
        proof (cases "running bus")
          case True
          have "fst (dispatchLoop LoopHead (bus\<lparr>messageQueue := queue\<rparr>) h' (served @ [(event, calls)]))
                \<noteq> Crashed (Uncaught (std_exception w))"
            using "2.IH" [OF _ _ Cons Inr w [symmetric, unfolded r] refl refl] True Cons
            by simp
          with True Cons Inr w r show ?thesis by simp
        next
          case False
          then show ?thesis by simp
        qed
      qed
    qed
  qed
qed

text \<open>
  While the bus runs and nothing escapes, the worker serves the whole queue in order and
  blocks.
\<close>

lemma dispatchLoop_drains:
  assumes "running bus"
    and "\<forall>s\<in>set (subscriptions bus). topicPattern s \<noteq> []"
    and "\<forall>s\<in>set (subscriptions bus). \<forall>msg h. fst (handler s msg h) \<noteq> Throws foreign_exception"
  shows "\<exists>h' new. dispatchLoop pc bus h served
           = (Blocked, bus\<lparr>messageQueue := []\<rparr>, h', served @ new)
         \<and> map fst new = messageQueue bus"
  using assms
proof (induction pc bus h served rule: dispatchLoop.induct)
  case (1 bus h served)
  then show ?case by simp
next
  case (2 bus h served)
  show ?case
  proof (cases "messageQueue bus")
    case Nil
    then have "bus\<lparr>messageQueue := []\<rparr> = bus" by simp
    with Nil "2.prems"(1) show ?thesis by simp
  next
    case (Cons event queue)
    let ?hs = "filter (\<lambda>s. match_spec (topicPattern s) (topic event)) (subscriptions bus)"
    have c: "collect (subscriptions bus) (topic event) [] = Inr ?hs"
      using collect_nonempty_patterns [OF "2.prems"(2), of "topic event" "[]"] by simp
    have "\<forall>s\<in>set ?hs. \<forall>h. fst (handler s (message event) h) \<noteq> Throws foreign_exception"
      using "2.prems"(3) by simp
    from worker_deliver_no_foreign [OF this, of h "[]"]
    obtain h1 calls where w: "worker_deliver ?hs (message event) h [] = (Inr (), h1, calls)"
      by blast
    let ?bus = "bus\<lparr>messageQueue := queue\<rparr>"
    have "\<exists>h' new. dispatchLoop LoopHead ?bus h1 (served @ [(event, calls)])
             = (Blocked, ?bus\<lparr>messageQueue := []\<rparr>, h', (served @ [(event, calls)]) @ new)
          \<and> map fst new = messageQueue ?bus"
      using "2.IH" [OF _ _ Cons c w [symmetric] refl refl] "2.prems" Cons by simp
    then obtain h' new where
      d: "dispatchLoop LoopHead ?bus h1 (served @ [(event, calls)])
           = (Blocked, ?bus\<lparr>messageQueue := []\<rparr>, h', (served @ [(event, calls)]) @ new)"
      and n: "map fst new = queue"
      by auto
    have "dispatchLoop InWait bus h served
          = (Blocked, bus\<lparr>messageQueue := []\<rparr>, h', served @ ((event, calls) # new))"
      using "2.prems"(1) Cons c w d by simp
    moreover have "map fst ((event, calls) # new) = messageQueue bus"
      using n Cons by simp
    ultimately show ?thesis by blast
  qed
qed

text \<open>Every call the worker makes is a call of a registered subscription.\<close>

lemma dispatchLoop_calls_ids:
  assumes "dispatchLoop pc bus h served = (e, bus', h', served')"
    and "(ev, calls) \<in> set served'"
  shows "(ev, calls) \<in> set served \<or> fst ` set calls \<subseteq> sub_id ` set (subscriptions bus)"
  using assms
proof (induction pc bus h served rule: dispatchLoop.induct)
  case (1 bus h served)
  then show ?case by (cases "running bus") auto
next
  case (2 bus h served)
  show ?case
  proof (cases "running bus")
    case False
    with "2.prems" show ?thesis by auto
  next
    case True
    show ?thesis
    proof (cases "messageQueue bus")
      case Nil
      with True "2.prems" show ?thesis by auto
    next
      case (Cons event queue)
      show ?thesis
      proof (cases "collect (subscriptions bus) (topic event) []")
        case (Inl f)
        with True Cons "2.prems" show ?thesis by auto
      next
        case (Inr handlers)
        have hs: "set handlers \<subseteq> set (subscriptions bus)"
          using collect_result [OF Inr] by auto
        obtain res h1 cs where w: "worker_deliver handlers (message event) h [] = (res, h1, cs)"
          by (cases "worker_deliver handlers (message event) h []")
        have ids: "fst ` set cs \<subseteq> sub_id ` set (subscriptions bus)"
          using worker_deliver_calls_ids [OF w] hs by auto
        show ?thesis
        proof (cases res)
          case (Inl f)
          with True Cons Inr w "2.prems"
          have "(ev, calls) \<in> set served \<or> calls = cs" by auto
          with ids show ?thesis by blast
        next
          case r: (Inr u)
          have "dispatchLoop LoopHead (bus\<lparr>messageQueue := queue\<rparr>) h1 (served @ [(event, cs)])
                = (e, bus', h', served')"
            using True Cons Inr w r "2.prems"(1) by simp
          from "2.IH" [OF _ _ Cons Inr w [symmetric, unfolded r] refl refl this "2.prems"(2)] True Cons
          have "(ev, calls) \<in> set served \<or> calls = cs
                \<or> fst ` set calls \<subseteq> sub_id ` set (subscriptions bus)" by auto
          with ids show ?thesis by blast
        qed
      qed
    qed
  qed
qed

subsection \<open>The payload store: proofs\<close>

lemma preserves_refl: "preserves h h"
  by (simp add: preserves_def)

lemma preserves_trans: "preserves h1 h2 \<Longrightarrow> preserves h2 h3 \<Longrightarrow> preserves h1 h3"
  by (auto simp: preserves_def)

lemma wrappedHandler_mismatch:
  "type_id msg \<noteq> T \<Longrightarrow>
   wrappedHandler T f msg h = (Returns (Some (Void (TypedResponse_void True))), h)"
  by (simp add: wrappedHandler_def dynamic_pointer_cast_def TypedResponse_void_default_def)

lemma wrappedHandler_match:
  "type_id msg = T \<Longrightarrow>
   wrappedHandler T f msg h = f (length h) (h @ [h ! msg_data msg])"
  by (simp add: wrappedHandler_def dynamic_pointer_cast_def make_shared_def get_message_def)

lemma wrappedHandler_preserves:
  assumes "confined f"
  shows "preserves h (snd (wrappedHandler T f msg h))"
proof (cases "type_id msg = T")
  case True
  let ?h1 = "h @ [h ! msg_data msg]"
  let ?h2 = "snd (f (length h) ?h1)"
  have len: "length ?h1 \<le> length ?h2"
    and cells: "\<forall>a<length ?h1. a \<noteq> length h \<longrightarrow> ?h2 ! a = ?h1 ! a"
    using assms unfolding confined_def by blast+
  have "?h2 ! a = h ! a" if "a < length h" for a
    using cells that by (simp add: nth_append)
  with len show ?thesis
    by (simp add: wrappedHandler_match [OF True] preserves_def)
next
  case False
  then show ?thesis by (simp add: wrappedHandler_mismatch preserves_refl)
qed

lemma adapted_preserves: "adapted sub \<Longrightarrow> preserves h (snd (handler sub msg h))"
  unfolding adapted_def using wrappedHandler_preserves by metis

lemma post_deliver_preserves:
  assumes "\<forall>s\<in>set subs. adapted s"
    and "post_deliver subs msg h results calls = (res, h', calls')"
  shows "preserves h h' \<and> (\<forall>c\<in>set calls'. c \<in> set calls \<or> preserves h (fst (snd c)))"
  using assms
proof (induction subs arbitrary: h results calls)
  case Nil
  then show ?case by (auto simp: preserves_refl)
next
  case (Cons sub rest)
  obtain out h1 where o: "handler sub msg h = (out, h1)" by (cases "handler sub msg h")
  have p1: "preserves h h1" using adapted_preserves [of sub h msg] Cons.prems(1) o by simp
  show ?case
  proof (cases "post_try out results")
    case (Inl f)
    with Cons.prems(2) o p1 show ?thesis by (auto simp: preserves_refl)
  next
    case (Inr results')
    with Cons.prems(2) o
    have d: "post_deliver rest msg h1 results' (calls @ [(sub_id sub, h, out)]) = (res, h', calls')"
      by simp
    have r: "\<forall>s\<in>set rest. adapted s" using Cons.prems(1) by simp
    from Cons.IH [OF r d]
    have a: "preserves h1 h'"
      and b: "\<forall>c\<in>set calls'. c \<in> set (calls @ [(sub_id sub, h, out)]) \<or> preserves h1 (fst (snd c))"
      by blast+
    have "c \<in> set calls \<or> preserves h (fst (snd c))" if "c \<in> set calls'" for c
      using b that p1 preserves_trans [OF p1] by (auto simp: preserves_refl)
    with a p1 show ?thesis using preserves_trans by blast
  qed
qed

lemma worker_deliver_preserves:
  assumes "\<forall>s\<in>set subs. adapted s"
    and "worker_deliver subs msg h calls = (res, h', calls')"
  shows "preserves h h' \<and> (\<forall>c\<in>set calls'. c \<in> set calls \<or> preserves h (fst (snd c)))"
  using assms
proof (induction subs arbitrary: h calls)
  case Nil
  then show ?case by (auto simp: preserves_refl)
next
  case (Cons sub rest)
  obtain out h1 where o: "handler sub msg h = (out, h1)" by (cases "handler sub msg h")
  have p1: "preserves h h1" using adapted_preserves [of sub h msg] Cons.prems(1) o by simp
  show ?case
  proof (cases "worker_try out")
    case (Inl f)
    with Cons.prems(2) o p1 show ?thesis by (auto simp: preserves_refl)
  next
    case (Inr u)
    with Cons.prems(2) o
    have d: "worker_deliver rest msg h1 (calls @ [(sub_id sub, h, out)]) = (res, h', calls')"
      by simp
    have r: "\<forall>s\<in>set rest. adapted s" using Cons.prems(1) by simp
    from Cons.IH [OF r d]
    have a: "preserves h1 h'"
      and b: "\<forall>c\<in>set calls'. c \<in> set (calls @ [(sub_id sub, h, out)]) \<or> preserves h1 (fst (snd c))"
      by blast+
    have "c \<in> set calls \<or> preserves h (fst (snd c))" if "c \<in> set calls'" for c
      using b that p1 preserves_trans [OF p1] by (auto simp: preserves_refl)
    with a p1 show ?thesis using preserves_trans by blast
  qed
qed

lemma post_preserves:
  assumes "\<forall>s\<in>set (subscriptions bus). adapted s"
    and "post T tp m bus h = (res, h', calls)"
  shows "preserves (h @ [m]) h' \<and> (\<forall>c\<in>set calls. preserves (h @ [m]) (fst (snd c)))"
proof (cases "collect (subscriptions bus) tp []")
  case (Inl f)
  with assms(2) show ?thesis
    by (auto simp: post_def TypedMessage_def make_shared_def preserves_refl)
next
  case (Inr handlers)
  have hs: "\<forall>s\<in>set handlers. adapted s"
    using collect_result [OF Inr] assms(1) by auto
  have "post_deliver handlers \<lparr>type_id = T, msg_data = length h\<rparr> (h @ [m]) [] [] = (res, h', calls)"
    using assms(2) Inr by (simp add: post_def TypedMessage_def make_shared_def)
  from post_deliver_preserves [OF hs this] show ?thesis by simp
qed

lemma dispatchLoop_preserves:
  assumes "\<forall>s\<in>set (subscriptions bus). adapted s"
    and "dispatchLoop pc bus h served = (e, bus', h', served')"
  shows "preserves h h'
     \<and> (\<forall>x\<in>set served'. x \<in> set served \<or> (\<forall>c\<in>set (snd x). preserves h (fst (snd c))))"
  using assms
proof (induction pc bus h served rule: dispatchLoop.induct)
  case (1 bus h served)
  then show ?case by (cases "running bus") (auto simp: preserves_refl)
next
  case (2 bus h served)
  show ?case
  proof (cases "running bus")
    case False
    with "2.prems" show ?thesis by (auto simp: preserves_refl)
  next
    case True
    show ?thesis
    proof (cases "messageQueue bus")
      case Nil
      with True "2.prems" show ?thesis by (auto simp: preserves_refl)
    next
      case (Cons event queue)
      show ?thesis
      proof (cases "collect (subscriptions bus) (topic event) []")
        case (Inl f)
        with True Cons "2.prems" show ?thesis by (auto simp: preserves_refl)
      next
        case (Inr handlers)
        have hs: "\<forall>s\<in>set handlers. adapted s"
          using collect_result [OF Inr] "2.prems"(1) by auto
        obtain res h1 cs where w: "worker_deliver handlers (message event) h [] = (res, h1, cs)"
          by (cases "worker_deliver handlers (message event) h []")
        from worker_deliver_preserves [OF hs w]
        have p1: "preserves h h1" and pc: "\<forall>c\<in>set cs. preserves h (fst (snd c))"
          by auto
        show ?thesis
        proof (cases res)
          case (Inl f)
          with True Cons Inr w "2.prems"(2)
          have "h' = h1" and "served' = served @ [(event, cs)]" by auto
          with p1 pc show ?thesis by auto
        next
          case r: (Inr u)
          have d: "dispatchLoop LoopHead (bus\<lparr>messageQueue := queue\<rparr>) h1 (served @ [(event, cs)])
                = (e, bus', h', served')"
            using True Cons Inr w r "2.prems"(2) by simp
          have a: "\<forall>s\<in>set (subscriptions (bus\<lparr>messageQueue := queue\<rparr>)). adapted s"
            using "2.prems"(1) by simp
          from "2.IH" [OF _ _ Cons Inr w [symmetric, unfolded r] refl refl a d] True Cons
          have q: "preserves h1 h'"
            and s: "\<forall>x\<in>set served'. x \<in> set (served @ [(event, cs)])
                      \<or> (\<forall>c\<in>set (snd x). preserves h1 (fst (snd c)))"
            by auto
          have "x \<in> set served \<or> (\<forall>c\<in>set (snd x). preserves h (fst (snd c)))"
            if "x \<in> set served'" for x
          proof -
            from s that consider "x \<in> set served" | "x = (event, cs)"
              | "\<forall>c\<in>set (snd x). preserves h1 (fst (snd c))" by auto
            then show ?thesis
            proof cases
              case 1 then show ?thesis by simp
            next
              case 2 with pc show ?thesis by simp
            next
              case 3 with p1 show ?thesis using preserves_trans by blast
            qed
          qed
          with q p1 show ?thesis using preserves_trans by blast
        qed
      qed
    qed
  qed
qed

subsection \<open>The registry invariant\<close>

lemmas scenario_defs = post_def subscribe_def unsubscribe_def EventBus_init_def stable_sort_def TypedMessage_def
  make_shared_def isTopicMatch_def string_back_def wrappedHandler_def dynamic_pointer_cast_def
  get_message_def compare_def size_t_minus1_def TypedResponse_void_default_def
  TypedResponse_value_def TypedResponse_default_def ok_handler_def bus2_def ops2_def
  postAsync_def start_def

lemma run_ops_from_init:
  assumes "length (filter is_Subscribe ops) < 2 ^ 64"
  shows "registry_invariant (run_ops ops (EventBus_init, []))"
proof -
  have "registry_invariant (EventBus_init, [])" "counter_bound (EventBus_init, [])"
    by (simp_all add: registry_invariant_def counter_bound_def EventBus_init_def)
  moreover have "unat (handlerIdCounter (fst (EventBus_init, []))) + length (filter is_Subscribe ops) < 2 ^ 64"
    using assms by (simp add: EventBus_init_def)
  ultimately show ?thesis using run_ops_invariant by blast
qed

text \<open>
  Claim C7, amended. After every sequence of \<^verbatim>\<open>subscribe\<close> and \<^verbatim>\<open>unsubscribe\<close> calls
  that contains fewer than \<open>2 ^ 64\<close> \<^verbatim>\<open>subscribe\<close> calls, the registry invariant holds:
  live identifiers are unique, the identifiers issued are strictly increasing, above 0 and
  never issued twice, and the registry is ordered by priority, equal priorities by
  registration.
\<close>

theorem registry_invariant_below_wrap:
  assumes "length (filter is_Subscribe ops) < 2 ^ 64"
  shows "registry_invariant (run_ops ops (EventBus_init, []))"
  using assms by (rule run_ops_from_init)

lemma subscriptions_bus2:
  "map sub_id (subscriptions bus2) = [5, 4, 2, 3, 6]
   \<and> map priority (subscriptions bus2) = [- 5, 0, 10, 10, 10]
   \<and> snd (run_ops ops2 (EventBus_init, [])) = [1, 2, 3, 4, 5, 6]"
  by (simp add: scenario_defs)

theorem registry_invariant_below_wrap_witness:
  "length (filter is_Subscribe ops2) < 2 ^ 64
   \<and> registry_invariant (run_ops ops2 (EventBus_init, []))
   \<and> map sub_id (subscriptions (fst (run_ops ops2 (EventBus_init, [])))) = [5, 4, 2, 3, 6]
   \<and> map priority (subscriptions (fst (run_ops ops2 (EventBus_init, [])))) = [- 5, 0, 10, 10, 10]
   \<and> snd (run_ops ops2 (EventBus_init, [])) = [1, 2, 3, 4, 5, 6]"
proof -
  have h: "length (filter is_Subscribe ops2) < 2 ^ 64" by (simp add: ops2_def)
  from registry_invariant_below_wrap [OF h] h subscriptions_bus2 show ?thesis
    by (simp add: bus2_def)
qed

lemma run_ops_append: "run_ops (xs @ ys) st = run_ops ys (run_ops xs st)"
  by (induction xs arbitrary: st) auto

lemma run_ops_replicate_Subscribe:
  "handlerIdCounter (fst (run_ops (replicate n (Subscribe T pat f prio)) st))
     = handlerIdCounter (fst st) + of_nat n
   \<and> (0 < n \<longrightarrow> handlerIdCounter (fst st) + of_nat n
         \<in> set (snd (run_ops (replicate n (Subscribe T pat f prio)) st)))"
proof (induction n)
  case 0
  then show ?case by simp
next
  case (Suc n)
  let ?S = "Subscribe T pat f prio"
  obtain bus' ids' where st': "run_ops (replicate n ?S) st = (bus', ids')"
    by (cases "run_ops (replicate n ?S) st")
  have c: "handlerIdCounter bus' = handlerIdCounter (fst st) + of_nat n"
    using Suc.IH st' by simp
  have "replicate (Suc n) ?S = replicate n ?S @ [?S]"
    by (simp add: replicate_append_same)
  then have "run_ops (replicate (Suc n) ?S) st = apply_op ?S (bus', ids')"
    using st' by (simp only: run_ops_append run_ops.simps)
  then show ?case using c by (simp add: subscribe_def Let_def add.assoc)
qed

text \<open>
  Claim C7 as stated, for every sequence, fails: the counter is a \<^verbatim>\<open>size_t\<close>, and the
  \<open>2 ^ 64\<close>-th \<^verbatim>\<open>subscribe\<close> call wraps it and issues the identifier 0.
\<close>

theorem identifier_wraps_counterexample:
  "\<not> registry_invariant
       (run_ops (replicate (2 ^ 64) (Subscribe ''TradeEvent'' ''trade.test'' ok_handler 0))
          (EventBus_init, []))"
proof
  let ?st = "run_ops (replicate (2 ^ 64) (Subscribe ''TradeEvent'' ''trade.test'' ok_handler 0))
          (EventBus_init, [])"
  assume "registry_invariant ?st"
  then have pos: "\<forall>i\<in>set (snd ?st). 0 < i" by (simp add: registry_invariant_def)
  let ?c = "handlerIdCounter (fst (EventBus_init :: (nat, nat) EventBus, [] :: HandlerId list))"
  have z: "?c + of_nat (2 ^ 64) = 0" by (simp add: EventBus_init_def)
  have "0 < (2 ^ 64 :: nat)" by simp
  with run_ops_replicate_Subscribe [of "2 ^ 64" "''TradeEvent''" "''trade.test''" ok_handler 0
        "(EventBus_init, [])"]
  have "?c + of_nat (2 ^ 64) \<in> set (snd ?st)" by blast
  then have "(0 :: 64 word) \<in> set (snd ?st)" unfolding z .
  with pos show False by auto
qed

subsection \<open>Synchronous dispatch\<close>

lemmas more_scenario_defs = void_handler_def bus_void_def foreign_handler_def bus_foreign_def

lemma post_on_good_registry:
  assumes pats: "\<forall>s\<in>set (subscriptions bus). topicPattern s \<noteq> []"
    and wb: "\<forall>s\<in>set (subscriptions bus). \<forall>msg h. well_behaved (fst (handler s msg h))"
  shows "\<exists>h' calls.
      post T tp m bus h = (Inr (valid_responses calls), h', calls)
      \<and> list_all2 (call_of \<lparr>type_id = T, msg_data = length h\<rparr>)
           (filter (\<lambda>s. match_spec (topicPattern s) tp) (subscriptions bus)) calls"
proof -
  let ?hs = "filter (\<lambda>s. match_spec (topicPattern s) tp) (subscriptions bus)"
  let ?msg = "\<lparr>type_id = T, msg_data = length h\<rparr>"
  have c: "collect (subscriptions bus) tp [] = Inr ?hs"
    using collect_nonempty_patterns [OF pats, of tp "[]"] by simp
  have "\<forall>s\<in>set ?hs. \<forall>h. well_behaved (fst (handler s ?msg h))" using wb by simp
  from post_deliver_well_behaved [OF this, of "h @ [m]" "[]" "[]"]
  obtain h' new where "post_deliver ?hs ?msg (h @ [m]) [] [] = (Inr (valid_responses new), h', new)"
    and "list_all2 (call_of ?msg) ?hs new"
    by auto
  with c show ?thesis by (simp add: post_def TypedMessage_def make_shared_def)
qed

text \<open>
  Claim C1, amended. When no registered pattern is empty and no handler returns a null
  pointer or throws a value that does not derive from \<^verbatim>\<open>std::exception\<close>, \<^verbatim>\<open>post\<close>
  returns: it calls exactly the matching subscriptions' handlers, in the order of the
  registry, which is by priority and for equal priorities by registration (fewer than
  \<open>2 ^ 64\<close> registrations), and its result holds exactly the capsules among them that report
  \<^verbatim>\<open>isValid() == true\<close>, in that order. A \<^verbatim>\<open>TypedResponse<void>\<close> built with the default
  argument is valid and is an entry; a capsule that reports false and a handler that
  throws a \<^verbatim>\<open>std::exception\<close> contribute none.
\<close>

theorem post_returns_valid_responses_in_order:
  assumes "length (filter is_Subscribe ops) < 2 ^ 64"
    and "subscriptions bus = subscriptions (fst (run_ops ops (EventBus_init, [])))"
    and "\<forall>s\<in>set (subscriptions bus). topicPattern s \<noteq> []"
    and "\<forall>s\<in>set (subscriptions bus). \<forall>msg h. well_behaved (fst (handler s msg h))"
  shows "\<exists>h' calls.
      post T tp m bus h = (Inr (valid_responses calls), h', calls)
      \<and> list_all2 (call_of \<lparr>type_id = T, msg_data = length h\<rparr>)
           (filter (\<lambda>s. match_spec (topicPattern s) tp) (subscriptions bus)) calls
      \<and> sorted_wrt by_priority_then_id
           (filter (\<lambda>s. match_spec (topicPattern s) tp) (subscriptions bus))"
proof -
  have "sorted_wrt by_priority_then_id (subscriptions bus)"
    using run_ops_from_init [OF assms(1)] assms(2) by (simp add: registry_invariant_def)
  then have "sorted_wrt by_priority_then_id
      (filter (\<lambda>s. match_spec (topicPattern s) tp) (subscriptions bus))"
    by (rule sorted_wrt_filter)
  with post_on_good_registry [OF assms(3,4), of T tp m h] show ?thesis by blast
qed

lemma bus2_good:
  "\<forall>s\<in>set (subscriptions bus2). topicPattern s \<noteq> []"
  "\<forall>s\<in>set (subscriptions bus2). \<forall>msg h. well_behaved (fst (handler s msg h))"
  by (auto simp: scenario_defs well_behaved_def)

lemma post_bus2:
  "post ''TradeEvent'' ''trade.test'' 7 bus2 []
     = (Inr [Void (TypedResponse_void True), Typed (TypedResponse 7 True)],
        [7, 7, 7, 0],
        [(5, [7], Returns (Some (Typed (TypedResponse 0 False)))),
         (2, [7, 7], Throws (std_exception ''boom'')),
         (3, [7, 7, 7], Returns (Some (Void (TypedResponse_void True)))),
         (6, [7, 7, 7], Returns (Some (Typed (TypedResponse 7 True))))])"
  by (simp add: scenario_defs)

lemma matching_bus2:
  "map sub_id (filter (\<lambda>s. match_spec (topicPattern s) ''trade.test'') (subscriptions bus2))
     = [5, 2, 3, 6]
   \<and> map priority (filter (\<lambda>s. match_spec (topicPattern s) ''trade.test'') (subscriptions bus2))
     = [- 5, 10, 10, 10]"
  by (simp add: scenario_defs match_spec_def)

theorem post_returns_valid_responses_in_order_witness:
  "post ''TradeEvent'' ''trade.test'' 7 bus2 []
     = (Inr [Void (TypedResponse_void True), Typed (TypedResponse 7 True)],
        [7, 7, 7, 0],
        [(5, [7], Returns (Some (Typed (TypedResponse 0 False)))),
         (2, [7, 7], Throws (std_exception ''boom'')),
         (3, [7, 7, 7], Returns (Some (Void (TypedResponse_void True)))),
         (6, [7, 7, 7], Returns (Some (Typed (TypedResponse 7 True))))])
   \<and> map sub_id (filter (\<lambda>s. match_spec (topicPattern s) ''trade.test'') (subscriptions bus2))
     = [5, 2, 3, 6]
   \<and> map priority (filter (\<lambda>s. match_spec (topicPattern s) ''trade.test'') (subscriptions bus2))
     = [- 5, 10, 10, 10]"
proof -
  have n: "length (filter is_Subscribe ops2) < 2 ^ 64" by (simp add: ops2_def)
  have b: "subscriptions bus2 = subscriptions (fst (run_ops ops2 (EventBus_init, [])))"
    by (simp add: bus2_def)
  from post_returns_valid_responses_in_order [OF n b bus2_good, of "''TradeEvent''" "''trade.test''" 7 "[]"]
    post_bus2 matching_bus2
  show ?thesis by simp
qed

text \<open>
  Claim C1 as stated fails where it says that void capsules contribute no entry: the
  handler below returns \<^verbatim>\<open>std::make_shared<TypedResponse<void>>()\<close>, whose \<^verbatim>\<open>valid_\<close>
  is true, and \<^verbatim>\<open>post\<close> returns it.
\<close>

theorem post_void_capsule_counterexample:
  "fst (post ''TradeEvent'' ''trade.test'' 7 bus_void []) = Inr [Void (TypedResponse_void True)]"
  by (simp add: scenario_defs more_scenario_defs)

subsection \<open>Capsules and the adapter\<close>

text \<open>
  Claim C8. Reading a capsule whose \<^verbatim>\<open>valid_\<close> is false throws
  \<^verbatim>\<open>std::runtime_error("Invalid response")\<close> and yields no value, also for a
  default-constructed \<^verbatim>\<open>TypedResponse<T>\<close>; reading a valid capsule returns the stored
  value; \<^verbatim>\<open>isValid()\<close> returns the flag for every capsule, valid or not, and has no
  other effect.
\<close>

theorem capsule_read:
  "get r = (if valid_of r then Inr (data_of r) else Inl (std_exception ''Invalid response''))
   \<and> get (TypedResponse_default dflt) = Inl (std_exception ''Invalid response'')
   \<and> get (TypedResponse_value d) = Inr d
   \<and> get_void rv = (if valid_of_void rv then Inr () else Inl (std_exception ''Invalid response''))
   \<and> get_void (TypedResponse_void False) = Inl (std_exception ''Invalid response'')
   \<and> get_void TypedResponse_void_default = Inr ()
   \<and> isValid (Typed r) = valid_of r
   \<and> isValid (Void rv) = valid_of_void rv"
  by (cases r; cases rv)
     (simp add: TypedResponse_default_def TypedResponse_value_def TypedResponse_void_default_def)

text \<open>
  Claim C6. Called on an envelope whose payload type is not T, the adapter of
  \<^verbatim>\<open>subscribe<T>\<close> returns a \<^verbatim>\<open>TypedResponse<void>\<close> (default-constructed, so its
  \<^verbatim>\<open>valid_\<close> is true), throws nothing, leaves the store alone and does not depend on the
  original handler; on the type T it calls the original handler with a pointer to the
  extracted payload. In both dispatch loops a mismatched subscription is passed over and
  the loop goes on with the remaining handlers.
\<close>

theorem adapter_type_check:
  "(type_id msg \<noteq> T \<longrightarrow>
      wrappedHandler T f msg h = (Returns (Some (Void TypedResponse_void_default)), h)
      \<and> post_deliver (sub\<lparr>handler := wrappedHandler T f\<rparr> # rest) msg h results calls
          = post_deliver rest msg h (results @ [Void TypedResponse_void_default])
              (calls @ [(sub_id sub, h, Returns (Some (Void TypedResponse_void_default)))])
      \<and> worker_deliver (sub\<lparr>handler := wrappedHandler T f\<rparr> # rest) msg h calls
          = worker_deliver rest msg h
              (calls @ [(sub_id sub, h, Returns (Some (Void TypedResponse_void_default)))]))
   \<and> (type_id msg = T \<longrightarrow>
      wrappedHandler T f msg h = f (length h) (h @ [h ! msg_data msg]))"
  by (simp add: wrappedHandler_def dynamic_pointer_cast_def make_shared_def get_message_def
      TypedResponse_void_default_def)

theorem adapter_type_check_witness:
  "wrappedHandler ''RiskResult'' foreign_handler \<lparr>type_id = ''TradeEvent'', msg_data = 0\<rparr> [7]
     = (Returns (Some (Void TypedResponse_void_default)), [7])
   \<and> wrappedHandler ''TradeEvent'' ok_handler \<lparr>type_id = ''TradeEvent'', msg_data = 0\<rparr> [7]
     = (Returns (Some (Typed (TypedResponse 7 True))), [7, 0])
   \<and> post_deliver
        [\<lparr>sub_id = 1, topicPattern = ''*'', handler = wrappedHandler ''RiskResult'' foreign_handler,
          priority = 0\<rparr>,
         \<lparr>sub_id = 2, topicPattern = ''*'', handler = wrappedHandler ''TradeEvent'' ok_handler,
          priority = 0\<rparr>]
        \<lparr>type_id = ''TradeEvent'', msg_data = 0\<rparr> [7] [] []
     = (Inr [Void (TypedResponse_void True), Typed (TypedResponse 7 True)], [7, 0],
        [(1, [7], Returns (Some (Void (TypedResponse_void True)))),
         (2, [7], Returns (Some (Typed (TypedResponse 7 True))))])"
  using adapter_type_check [of "\<lparr>type_id = ''TradeEvent'', msg_data = 0\<rparr>" "''RiskResult''"
      foreign_handler "[7]"
      "\<lparr>sub_id = 1, topicPattern = ''*'', handler = wrappedHandler ''RiskResult'' foreign_handler,
          priority = 0\<rparr>"
      "[\<lparr>sub_id = 2, topicPattern = ''*'', handler = wrappedHandler ''TradeEvent'' ok_handler,
          priority = 0\<rparr>]" "[]" "[]"]
    adapter_type_check [of "\<lparr>type_id = ''TradeEvent'', msg_data = 0\<rparr>" "''TradeEvent''"
      ok_handler "[7]"]
  by (simp add: scenario_defs more_scenario_defs)

subsection \<open>The worker loop\<close>

lemmas worker_scenario_defs = bus_queued_def bus_stopped_def bus_pending_def
  bus_foreign_pending_def

lemma apply_op_frame:
  "messageQueue (fst (apply_op op st)) = messageQueue (fst st)
   \<and> running (fst (apply_op op st)) = running (fst st)
   \<and> dispatchThread (fst (apply_op op st)) = dispatchThread (fst st)"
  by (cases op; cases st) (simp_all add: subscribe_def unsubscribe_def Let_def)

lemma run_ops_frame:
  "messageQueue (fst (run_ops ops st)) = messageQueue (fst st)
   \<and> running (fst (run_ops ops st)) = running (fst st)
   \<and> dispatchThread (fst (run_ops ops st)) = dispatchThread (fst st)"
  by (induction ops arbitrary: st) (simp_all add: apply_op_frame)

lemma stop_running:
  "running bus \<Longrightarrow>
   stop pc bus h = (Exited, bus\<lparr>running := False, dispatchThread := False\<rparr>, h, [])"
  by (simp add: stop_def dispatchLoop_stopped)

lemma dispatchLoop_body_unfold:
  "dispatchLoop pc bus h served =
     (case dispatchLoop_body pc bus h served of
        (Return, s) \<Rightarrow> (Exited, s)
      | (Wait, s) \<Rightarrow> (Blocked, s)
      | (Die f, s) \<Rightarrow> (Crashed f, s)
      | (Loop, bus', h', served') \<Rightarrow> dispatchLoop LoopHead bus' h' served')"
  by (cases pc) (simp_all add: dispatchLoop_body_def split: list.splits sum.splits prod.splits)

lemma dispatchLoop_body_stopped:
  "\<not> running bus \<Longrightarrow> dispatchLoop_body pc bus h served = (Return, bus, h, served)"
  by (simp add: dispatchLoop_body_def)

lemma dispatchLoop_body_Return:
  "dispatchLoop_body pc bus h served = (Return, bus', h', served') \<Longrightarrow>
   \<not> running bus \<and> bus' = bus \<and> h' = h \<and> served' = served"
  by (auto simp: dispatchLoop_body_def split: if_splits list.splits sum.splits prod.splits)

lemma dispatchLoop_body_Wait:
  "dispatchLoop_body pc bus h served = (Wait, bus', h', served') \<Longrightarrow>
   running bus \<and> messageQueue bus = [] \<and> bus' = bus \<and> h' = h \<and> served' = served"
  by (auto simp: dispatchLoop_body_def split: if_splits list.splits sum.splits prod.splits)

lemma worker_run_undisturbed:
  "\<forall>env\<in>set envs. \<forall>s. env s = s \<Longrightarrow>
   worker_run envs pc bus h served = dispatchLoop pc bus h served"
proof (induction envs arbitrary: pc bus h served)
  case Nil
  then show ?case by simp
next
  case (Cons env envs)
  have ih: "worker_run envs pc' b h' s' = dispatchLoop pc' b h' s'" for pc' b h' s'
    using Cons.IH Cons.prems by simp
  have env: "env (b, g) = (b, g)" for b g using Cons.prems by simp
  obtain e bus' h' served' where b: "dispatchLoop_body pc bus h served = (e, bus', h', served')"
    by (cases "dispatchLoop_body pc bus h served")
  show ?case
  proof (cases e)
    case Wait
    from dispatchLoop_body_Wait [OF b [unfolded Wait]]
    have "dispatchLoop InWait bus' h' served' = (Blocked, bus', h', served')" by simp
    with b Wait show ?thesis
      by (simp add: ih env dispatchLoop_body_unfold [of pc bus h served])
  qed (use b in \<open>simp_all add: ih env dispatchLoop_body_unfold [of pc bus h served]\<close>)
qed

lemma worker_run_stopped:
  "\<not> running bus \<Longrightarrow> worker_run envs pc bus h served = (Exited, bus, h, served)"
  by (cases envs) (simp_all add: dispatchLoop_stopped dispatchLoop_body_stopped)

lemma dispatchLoop_Exited:
  assumes "dispatchLoop pc bus h served = (Exited, bus', h', served')"
  shows "\<not> running bus'"
proof -
  have n: "\<not> running bus"
    using dispatchLoop_running_not_Exited [of bus pc h served] assms by auto
  from dispatchLoop_stopped [OF this, of pc h served] assms n show ?thesis by simp
qed

lemma worker_run_Exited:
  "worker_run envs pc bus h served = (Exited, bus', h', served') \<Longrightarrow> \<not> running bus'"
proof (induction envs arbitrary: pc bus h served)
  case Nil
  then show ?case using dispatchLoop_Exited by simp
next
  case (Cons env envs)
  obtain e b1 h1 s1 where b: "dispatchLoop_body pc bus h served = (e, b1, h1, s1)"
    by (cases "dispatchLoop_body pc bus h served")
  show ?case
  proof (cases e)
    case Return
    with Cons.prems b dispatchLoop_body_Return [OF b [unfolded Return]] show ?thesis by simp
  next
    case Wait
    with Cons.prems b have "worker_run envs InWait (fst (env (b1, h1))) (snd (env (b1, h1))) s1
        = (Exited, bus', h', served')"
      by simp
    then show ?thesis by (rule Cons.IH)
  next
    case (Die f)
    with Cons.prems b show ?thesis by simp
  next
    case Loop
    with Cons.prems b have "worker_run envs LoopHead (fst (env (b1, h1))) (snd (env (b1, h1))) s1
        = (Exited, bus', h', served')"
      by simp
    then show ?thesis by (rule Cons.IH)
  qed
qed

lemma worker_deliver_no_foreign_calls:
  assumes "\<forall>s\<in>set subs. \<forall>h. fst (handler s msg h) \<noteq> Throws foreign_exception"
  shows "\<exists>h' new. worker_deliver subs msg h calls = (Inr (), h', calls @ new)
         \<and> list_all2 (call_of msg) subs new"
  using assms
proof (induction subs arbitrary: h calls)
  case Nil
  then show ?case by simp
next
  case (Cons sub rest)
  obtain out h1 where o: "handler sub msg h = (out, h1)" by (cases "handler sub msg h")
  have "out \<noteq> Throws foreign_exception" using Cons.prems o by (metis fst_conv list.set_intros(1))
  then have t: "worker_try out = Inr ()" by (cases out rule: worker_try.cases) auto
  have "\<forall>s\<in>set rest. \<forall>h. fst (handler s msg h) \<noteq> Throws foreign_exception"
    using Cons.prems by simp
  from Cons.IH [OF this, of h1 "calls @ [(sub_id sub, h, out)]"]
  obtain h' new where
    d: "worker_deliver rest msg h1 (calls @ [(sub_id sub, h, out)])
         = (Inr (), h', (calls @ [(sub_id sub, h, out)]) @ new)"
    and l: "list_all2 (call_of msg) rest new"
    by blast
  have "worker_deliver (sub # rest) msg h calls = (Inr (), h', calls @ (sub_id sub, h, out) # new)"
    using o t d by simp
  moreover have "list_all2 (call_of msg) (sub # rest) ((sub_id sub, h, out) # new)"
    using l o by (simp add: call_of_def)
  ultimately show ?case by blast
qed

text \<open>
  A pass that finds the bus running and the queue not empty takes the front message and
  calls exactly the matching handlers on its envelope, in the order of the registry.
\<close>

lemma dispatchLoop_body_dispatches:
  assumes "running bus" and "messageQueue bus = ev # queue"
    and "\<forall>s\<in>set (subscriptions bus). topicPattern s \<noteq> []"
    and "\<forall>s\<in>set (subscriptions bus). \<forall>msg h. fst (handler s msg h) \<noteq> Throws foreign_exception"
  shows "\<exists>h1 calls.
      dispatchLoop_body pc bus h served
        = (Loop, bus\<lparr>messageQueue := queue\<rparr>, h1, served @ [(ev, calls)])
      \<and> worker_deliver (filter (\<lambda>s. match_spec (topicPattern s) (topic ev)) (subscriptions bus))
            (message ev) h [] = (Inr (), h1, calls)
      \<and> list_all2 (call_of (message ev))
           (filter (\<lambda>s. match_spec (topicPattern s) (topic ev)) (subscriptions bus)) calls"
proof -
  let ?hs = "filter (\<lambda>s. match_spec (topicPattern s) (topic ev)) (subscriptions bus)"
  have c: "collect (subscriptions bus) (topic ev) [] = Inr ?hs"
    using collect_nonempty_patterns [OF assms(3), of "topic ev" "[]"] by simp
  have "\<forall>s\<in>set ?hs. \<forall>h. fst (handler s (message ev) h) \<noteq> Throws foreign_exception"
    using assms(4) by simp
  from worker_deliver_no_foreign_calls [OF this, of h "[]"]
  obtain h1 calls where w: "worker_deliver ?hs (message ev) h [] = (Inr (), h1, calls)"
    and l: "list_all2 (call_of (message ev)) ?hs calls"
    by auto
  have "dispatchLoop_body pc bus h served
        = (Loop, bus\<lparr>messageQueue := queue\<rparr>, h1, served @ [(ev, calls)])"
    using assms(1,2) c w by (simp add: dispatchLoop_body_def)
  with w l show ?thesis by blast
qed

text \<open>
  Undisturbed, while the bus runs and nothing escapes, the worker dispatches the whole
  queue in order, every message to exactly its matching handlers, and blocks.
\<close>

lemma dispatchLoop_drains_calls:
  assumes "running bus"
    and "\<forall>s\<in>set (subscriptions bus). topicPattern s \<noteq> []"
    and "\<forall>s\<in>set (subscriptions bus). \<forall>msg h. fst (handler s msg h) \<noteq> Throws foreign_exception"
  shows "\<exists>h' new. dispatchLoop pc bus h served
           = (Blocked, bus\<lparr>messageQueue := []\<rparr>, h', served @ new)
         \<and> map fst new = messageQueue bus
         \<and> (\<forall>x\<in>set new. list_all2 (call_of (message (fst x)))
                (filter (\<lambda>s. match_spec (topicPattern s) (topic (fst x))) (subscriptions bus))
                (snd x))"
  using assms
proof (induction pc bus h served rule: dispatchLoop.induct)
  case (1 bus h served)
  then show ?case by simp
next
  case (2 bus h served)
  show ?case
  proof (cases "messageQueue bus")
    case Nil
    then have "bus\<lparr>messageQueue := []\<rparr> = bus" by simp
    with Nil "2.prems"(1) show ?thesis by simp
  next
    case (Cons event queue)
    let ?hs = "filter (\<lambda>s. match_spec (topicPattern s) (topic event)) (subscriptions bus)"
    have c: "collect (subscriptions bus) (topic event) [] = Inr ?hs"
      using collect_nonempty_patterns [OF "2.prems"(2), of "topic event" "[]"] by simp
    have "\<forall>s\<in>set ?hs. \<forall>h. fst (handler s (message event) h) \<noteq> Throws foreign_exception"
      using "2.prems"(3) by simp
    from worker_deliver_no_foreign_calls [OF this, of h "[]"]
    obtain h1 calls where w: "worker_deliver ?hs (message event) h [] = (Inr (), h1, calls)"
      and l: "list_all2 (call_of (message event)) ?hs calls"
      by auto
    let ?bus = "bus\<lparr>messageQueue := queue\<rparr>"
    let ?P = "\<lambda>x. list_all2 (call_of (message (fst x)))
                (filter (\<lambda>s. match_spec (topicPattern s) (topic (fst x))) (subscriptions bus))
                (snd x)"
    have "\<exists>h' new. dispatchLoop LoopHead ?bus h1 (served @ [(event, calls)])
             = (Blocked, ?bus\<lparr>messageQueue := []\<rparr>, h', (served @ [(event, calls)]) @ new)
          \<and> map fst new = messageQueue ?bus
          \<and> (\<forall>x\<in>set new. list_all2 (call_of (message (fst x)))
                (filter (\<lambda>s. match_spec (topicPattern s) (topic (fst x))) (subscriptions ?bus))
                (snd x))"
      using "2.IH" [OF _ _ Cons c w [symmetric] refl refl] "2.prems" Cons by simp
    then obtain h' new where
      d: "dispatchLoop LoopHead ?bus h1 (served @ [(event, calls)])
           = (Blocked, ?bus\<lparr>messageQueue := []\<rparr>, h', (served @ [(event, calls)]) @ new)"
      and n: "map fst new = queue"
      and p: "\<forall>x\<in>set new. ?P x"
      by auto
    have "dispatchLoop InWait bus h served
          = (Blocked, bus\<lparr>messageQueue := []\<rparr>, h', served @ ((event, calls) # new))"
      using "2.prems"(1) Cons c w d by simp
    moreover have "map fst ((event, calls) # new) = messageQueue bus"
      using n Cons by simp
    moreover have "\<forall>x\<in>set ((event, calls) # new). ?P x"
      using p l by simp
    ultimately show ?thesis by blast
  qed
qed

text \<open>
  Claim C3, amended. The worker loop returns only when a stop has been requested, that is
  when it reads \<^verbatim>\<open>running_\<close> as false, whatever the handlers and the other threads do to
  the bus between its passes; and it returns then whether or not the queue is empty: the
  pending messages stay in the queue and are not dispatched, and \<^verbatim>\<open>stop\<close> returns with
  the queue as it found it. A pass that finds \<^verbatim>\<open>running_\<close> true and the queue not empty
  takes the front message off the queue and, if no pattern is empty and no handler throws
  a value that does not derive from \<^verbatim>\<open>std::exception\<close>, calls exactly the handlers whose
  pattern matches its topic, on its envelope, in the order of the registry, and goes
  round. If nothing else changes the bus, the worker so dispatches every pending message,
  in the order of the queue, and then blocks on the empty queue.
\<close>

theorem worker_returns_only_when_stopped:
  "(\<not> running bus \<longrightarrow> worker_run envs pc bus h served = (Exited, bus, h, served))
   \<and> (worker_run envs pc bus h served = (Exited, bus', h', served') \<longrightarrow> \<not> running bus')
   \<and> (running bus \<longrightarrow>
        stop pc bus h = (Exited, bus\<lparr>running := False, dispatchThread := False\<rparr>, h, []))
   \<and> (running bus \<and> messageQueue bus = ev # queue
        \<and> (\<forall>s\<in>set (subscriptions bus). topicPattern s \<noteq> [])
        \<and> (\<forall>s\<in>set (subscriptions bus). \<forall>msg h. fst (handler s msg h) \<noteq> Throws foreign_exception)
      \<longrightarrow> (\<exists>h1 calls.
             dispatchLoop_body pc bus h served
               = (Loop, bus\<lparr>messageQueue := queue\<rparr>, h1, served @ [(ev, calls)])
             \<and> worker_run (env # envs) pc bus h served
               = worker_run envs LoopHead (fst (env (bus\<lparr>messageQueue := queue\<rparr>, h1)))
                   (snd (env (bus\<lparr>messageQueue := queue\<rparr>, h1))) (served @ [(ev, calls)])
             \<and> worker_deliver
                 (filter (\<lambda>s. match_spec (topicPattern s) (topic ev)) (subscriptions bus))
                 (message ev) h [] = (Inr (), h1, calls)
             \<and> list_all2 (call_of (message ev))
                 (filter (\<lambda>s. match_spec (topicPattern s) (topic ev)) (subscriptions bus)) calls))
   \<and> (running bus
        \<and> (\<forall>s\<in>set (subscriptions bus). topicPattern s \<noteq> [])
        \<and> (\<forall>s\<in>set (subscriptions bus). \<forall>msg h. fst (handler s msg h) \<noteq> Throws foreign_exception)
        \<and> (\<forall>env\<in>set envs. \<forall>s. env s = s)
      \<longrightarrow> (\<exists>h' new. worker_run envs pc bus h served
                  = (Blocked, bus\<lparr>messageQueue := []\<rparr>, h', served @ new)
             \<and> map fst new = messageQueue bus
             \<and> (\<forall>x\<in>set new. list_all2 (call_of (message (fst x)))
                   (filter (\<lambda>s. match_spec (topicPattern s) (topic (fst x))) (subscriptions bus))
                   (snd x))))
   \<and> worker_run [] pc bus h served = dispatchLoop pc bus h served
   \<and> (running bus \<and> (\<forall>env\<in>set envs. \<forall>s. env s = s)
      \<longrightarrow> fst (worker_run envs pc bus h served) \<noteq> Exited)"
proof -
  have a: "\<not> running bus \<longrightarrow> worker_run envs pc bus h served = (Exited, bus, h, served)"
    by (simp add: worker_run_stopped)
  have b: "worker_run envs pc bus h served = (Exited, bus', h', served') \<longrightarrow> \<not> running bus'"
    using worker_run_Exited by blast
  have c: "running bus \<longrightarrow>
        stop pc bus h = (Exited, bus\<lparr>running := False, dispatchThread := False\<rparr>, h, [])"
    by (simp add: stop_running)
  have d: "\<exists>h1 calls.
             dispatchLoop_body pc bus h served
               = (Loop, bus\<lparr>messageQueue := queue\<rparr>, h1, served @ [(ev, calls)])
             \<and> worker_run (env # envs) pc bus h served
               = worker_run envs LoopHead (fst (env (bus\<lparr>messageQueue := queue\<rparr>, h1)))
                   (snd (env (bus\<lparr>messageQueue := queue\<rparr>, h1))) (served @ [(ev, calls)])
             \<and> worker_deliver
                 (filter (\<lambda>s. match_spec (topicPattern s) (topic ev)) (subscriptions bus))
                 (message ev) h [] = (Inr (), h1, calls)
             \<and> list_all2 (call_of (message ev))
                 (filter (\<lambda>s. match_spec (topicPattern s) (topic ev)) (subscriptions bus)) calls"
    if "running bus" "messageQueue bus = ev # queue"
      "\<forall>s\<in>set (subscriptions bus). topicPattern s \<noteq> []"
      "\<forall>s\<in>set (subscriptions bus). \<forall>msg h. fst (handler s msg h) \<noteq> Throws foreign_exception"
  proof -
    from dispatchLoop_body_dispatches [OF that, of pc h served]
    obtain h1 calls where
      1: "dispatchLoop_body pc bus h served
            = (Loop, bus\<lparr>messageQueue := queue\<rparr>, h1, served @ [(ev, calls)])"
      and 2: "worker_deliver
                 (filter (\<lambda>s. match_spec (topicPattern s) (topic ev)) (subscriptions bus))
                 (message ev) h [] = (Inr (), h1, calls)"
      and 3: "list_all2 (call_of (message ev))
                 (filter (\<lambda>s. match_spec (topicPattern s) (topic ev)) (subscriptions bus)) calls"
      by blast
    from 1 have "worker_run (env # envs) pc bus h served
               = worker_run envs LoopHead (fst (env (bus\<lparr>messageQueue := queue\<rparr>, h1)))
                   (snd (env (bus\<lparr>messageQueue := queue\<rparr>, h1))) (served @ [(ev, calls)])"
      by simp
    with 1 2 3 show ?thesis by blast
  qed
  have e: "\<exists>h' new. worker_run envs pc bus h served
                  = (Blocked, bus\<lparr>messageQueue := []\<rparr>, h', served @ new)
             \<and> map fst new = messageQueue bus
             \<and> (\<forall>x\<in>set new. list_all2 (call_of (message (fst x)))
                   (filter (\<lambda>s. match_spec (topicPattern s) (topic (fst x))) (subscriptions bus))
                   (snd x))"
    if "running bus" "\<forall>s\<in>set (subscriptions bus). topicPattern s \<noteq> []"
      "\<forall>s\<in>set (subscriptions bus). \<forall>msg h. fst (handler s msg h) \<noteq> Throws foreign_exception"
      "\<forall>env\<in>set envs. \<forall>s. env s = s"
    using dispatchLoop_drains_calls [OF that(1,2,3), of pc h served]
      worker_run_undisturbed [OF that(4), of pc bus h served]
    by simp
  have f: "worker_run [] pc bus h served = dispatchLoop pc bus h served" by simp
  have g: "fst (worker_run envs pc bus h served) \<noteq> Exited"
    if "running bus" "\<forall>env\<in>set envs. \<forall>s. env s = s"
    using dispatchLoop_running_not_Exited [OF that(1), of pc h served]
      worker_run_undisturbed [OF that(2), of pc bus h served]
    by simp
  from a b c d e f g show ?thesis by blast
qed

lemma bus2_idle: "\<not> running bus2" "messageQueue bus2 = []"
  by (simp_all add: bus2_def run_ops_frame EventBus_init_def)

lemma bus2_no_foreign:
  "\<forall>s\<in>set (subscriptions bus2). \<forall>msg h. fst (handler s msg h) \<noteq> Throws foreign_exception"
  using bus2_good(2) by (auto simp: well_behaved_def)

lemma bus_pending_facts:
  "running bus_pending"
  "subscriptions bus_pending = subscriptions bus2"
  "messageQueue bus_pending
     = [\<lparr>topic = ''trade.test'', message = \<lparr>type_id = ''TradeEvent'', msg_data = 0\<rparr>\<rparr>,
        \<lparr>topic = ''trade.other'', message = \<lparr>type_id = ''TradeEvent'', msg_data = 1\<rparr>\<rparr>]"
  by (simp_all add: bus_pending_def postAsync_def start_def TypedMessage_def make_shared_def
      bus2_idle)

lemma bus_queued_facts:
  "running bus_queued"
  "postAsync ''TradeEvent'' ''trade.test'' 7 (start bus2) [] = (bus_queued, [7])"
  "messageQueue bus_queued
     = [\<lparr>topic = ''trade.test'', message = \<lparr>type_id = ''TradeEvent'', msg_data = 0\<rparr>\<rparr>]"
  by (simp_all add: bus_queued_def postAsync_def start_def TypedMessage_def make_shared_def
      bus2_idle)

lemma bus_stopped_facts:
  "bus_stopped = bus_queued\<lparr>running := False, dispatchThread := False\<rparr>"
  "\<not> running bus_stopped"
  "messageQueue bus_stopped
     = [\<lparr>topic = ''trade.test'', message = \<lparr>type_id = ''TradeEvent'', msg_data = 0\<rparr>\<rparr>]"
  by (simp_all add: bus_stopped_def stop_running bus_queued_facts)

lemma worker_bus_pending:
  "dispatchLoop LoopHead bus_pending [7, 8] []
     = (Blocked, bus_pending\<lparr>messageQueue := []\<rparr>, [7, 8, 7, 7, 0, 0],
        [(\<lparr>topic = ''trade.test'', message = \<lparr>type_id = ''TradeEvent'', msg_data = 0\<rparr>\<rparr>,
          [(5, [7, 8], Returns (Some (Typed (TypedResponse 0 False)))),
           (2, [7, 8, 7], Throws (std_exception ''boom'')),
           (3, [7, 8, 7, 7], Returns (Some (Void (TypedResponse_void True)))),
           (6, [7, 8, 7, 7], Returns (Some (Typed (TypedResponse 7 True))))]),
         (\<lparr>topic = ''trade.other'', message = \<lparr>type_id = ''TradeEvent'', msg_data = 1\<rparr>\<rparr>,
          [(4, [7, 8, 7, 7, 0], Returns (Some (Typed (TypedResponse 8 True)))),
           (3, [7, 8, 7, 7, 0, 0], Returns (Some (Void (TypedResponse_void True))))])])"
  by (simp add: bus_pending_facts scenario_defs)

lemma body_bus_queued:
  "dispatchLoop_body InWait bus_queued [7] []
     = (Loop, bus_queued\<lparr>messageQueue := []\<rparr>, [7, 7, 7, 0],
        [(\<lparr>topic = ''trade.test'', message = \<lparr>type_id = ''TradeEvent'', msg_data = 0\<rparr>\<rparr>,
          [(5, [7], Returns (Some (Typed (TypedResponse 0 False)))),
           (2, [7, 7], Throws (std_exception ''boom'')),
           (3, [7, 7, 7], Returns (Some (Void (TypedResponse_void True)))),
           (6, [7, 7, 7], Returns (Some (Typed (TypedResponse 7 True))))])])"
  by (simp add: dispatchLoop_body_def bus_queued_def scenario_defs)

lemma worker_run_post_then_stop:
  "worker_run [\<lambda>s. postAsync ''TradeEvent'' ''trade.test'' 7 (fst s) (snd s),
               \<lambda>s. ((fst s)\<lparr>running := False\<rparr>, snd s)] LoopHead (start bus2) [] []
     = (Exited, bus_queued\<lparr>messageQueue := [], running := False\<rparr>, [7, 7, 7, 0],
        [(\<lparr>topic = ''trade.test'', message = \<lparr>type_id = ''TradeEvent'', msg_data = 0\<rparr>\<rparr>,
          [(5, [7], Returns (Some (Typed (TypedResponse 0 False)))),
           (2, [7, 7], Throws (std_exception ''boom'')),
           (3, [7, 7, 7], Returns (Some (Void (TypedResponse_void True)))),
           (6, [7, 7, 7], Returns (Some (Typed (TypedResponse 7 True))))])])"
  by (simp add: dispatchLoop_body_def bus_queued_def scenario_defs)

lemma worker_run_post_and_stop:
  "worker_run [\<lambda>s. ((fst (postAsync ''TradeEvent'' ''trade.test'' 7 (fst s) (snd s)))
                        \<lparr>running := False\<rparr>,
                     snd (postAsync ''TradeEvent'' ''trade.test'' 7 (fst s) (snd s)))]
       LoopHead (start bus2) [] []
     = (Exited, bus_queued\<lparr>running := False\<rparr>, [7], [])"
  by (simp add: dispatchLoop_body_def bus_queued_def scenario_defs)

lemma worker_run_bus_pending:
  "worker_run [\<lambda>s. s] LoopHead bus_pending [7, 8] [] = dispatchLoop LoopHead bus_pending [7, 8] []"
  by (rule worker_run_undisturbed) simp

theorem worker_returns_only_when_stopped_witness:
  "stop InWait bus_queued [7] = (Exited, bus_stopped, [7], [])
   \<and> worker_run [\<lambda>s. s] LoopHead bus_stopped [7] [] = (Exited, bus_stopped, [7], [])
   \<and> messageQueue bus_stopped
       = [\<lparr>topic = ''trade.test'', message = \<lparr>type_id = ''TradeEvent'', msg_data = 0\<rparr>\<rparr>]
   \<and> map sub_id (filter (\<lambda>s. match_spec (topicPattern s) ''trade.test'')
        (subscriptions bus_queued)) = [5, 2, 3, 6]
   \<and> dispatchLoop_body InWait bus_queued [7] []
       = (Loop, bus_queued\<lparr>messageQueue := []\<rparr>, [7, 7, 7, 0],
          [(\<lparr>topic = ''trade.test'', message = \<lparr>type_id = ''TradeEvent'', msg_data = 0\<rparr>\<rparr>,
            [(5, [7], Returns (Some (Typed (TypedResponse 0 False)))),
             (2, [7, 7], Throws (std_exception ''boom'')),
             (3, [7, 7, 7], Returns (Some (Void (TypedResponse_void True)))),
             (6, [7, 7, 7], Returns (Some (Typed (TypedResponse 7 True))))])])
   \<and> list_all2 (call_of \<lparr>type_id = ''TradeEvent'', msg_data = 0\<rparr>)
        (filter (\<lambda>s. match_spec (topicPattern s) ''trade.test'') (subscriptions bus_queued))
        [(5, [7], Returns (Some (Typed (TypedResponse 0 False)))),
         (2, [7, 7], Throws (std_exception ''boom'')),
         (3, [7, 7, 7], Returns (Some (Void (TypedResponse_void True)))),
         (6, [7, 7, 7], Returns (Some (Typed (TypedResponse 7 True))))]
   \<and> worker_run [\<lambda>s. s] LoopHead bus_pending [7, 8] []
       = (Blocked, bus_pending\<lparr>messageQueue := []\<rparr>, [7, 8, 7, 7, 0, 0],
          [(\<lparr>topic = ''trade.test'', message = \<lparr>type_id = ''TradeEvent'', msg_data = 0\<rparr>\<rparr>,
            [(5, [7, 8], Returns (Some (Typed (TypedResponse 0 False)))),
             (2, [7, 8, 7], Throws (std_exception ''boom'')),
             (3, [7, 8, 7, 7], Returns (Some (Void (TypedResponse_void True)))),
             (6, [7, 8, 7, 7], Returns (Some (Typed (TypedResponse 7 True))))]),
           (\<lparr>topic = ''trade.other'', message = \<lparr>type_id = ''TradeEvent'', msg_data = 1\<rparr>\<rparr>,
            [(4, [7, 8, 7, 7, 0], Returns (Some (Typed (TypedResponse 8 True)))),
             (3, [7, 8, 7, 7, 0, 0], Returns (Some (Void (TypedResponse_void True))))])])
   \<and> list_all2 (call_of \<lparr>type_id = ''TradeEvent'', msg_data = 1\<rparr>)
        (filter (\<lambda>s. match_spec (topicPattern s) ''trade.other'') (subscriptions bus_pending))
        [(4, [7, 8, 7, 7, 0], Returns (Some (Typed (TypedResponse 8 True)))),
         (3, [7, 8, 7, 7, 0, 0], Returns (Some (Void (TypedResponse_void True))))]
   \<and> worker_run [\<lambda>s. postAsync ''TradeEvent'' ''trade.test'' 7 (fst s) (snd s),
                 \<lambda>s. ((fst s)\<lparr>running := False\<rparr>, snd s)] LoopHead (start bus2) [] []
       = (Exited, bus_queued\<lparr>messageQueue := [], running := False\<rparr>, [7, 7, 7, 0],
          [(\<lparr>topic = ''trade.test'', message = \<lparr>type_id = ''TradeEvent'', msg_data = 0\<rparr>\<rparr>,
            [(5, [7], Returns (Some (Typed (TypedResponse 0 False)))),
             (2, [7, 7], Throws (std_exception ''boom'')),
             (3, [7, 7, 7], Returns (Some (Void (TypedResponse_void True)))),
             (6, [7, 7, 7], Returns (Some (Typed (TypedResponse 7 True))))])])
   \<and> \<not> running (bus_queued\<lparr>messageQueue := [], running := False\<rparr>)
   \<and> worker_run [\<lambda>s. ((fst (postAsync ''TradeEvent'' ''trade.test'' 7 (fst s) (snd s)))
                          \<lparr>running := False\<rparr>,
                       snd (postAsync ''TradeEvent'' ''trade.test'' 7 (fst s) (snd s)))]
         LoopHead (start bus2) [] []
       = (Exited, bus_queued\<lparr>running := False\<rparr>, [7], [])
   \<and> messageQueue (bus_queued\<lparr>running := False\<rparr>)
       = [\<lparr>topic = ''trade.test'', message = \<lparr>type_id = ''TradeEvent'', msg_data = 0\<rparr>\<rparr>]"
proof -
  let ?ev = "\<lparr>topic = ''trade.test'', message = \<lparr>type_id = ''TradeEvent'', msg_data = 0\<rparr>\<rparr>"
  note T = worker_returns_only_when_stopped
  have subs: "subscriptions bus_queued = subscriptions bus2"
    by (simp add: bus_queued_def postAsync_def start_def TypedMessage_def make_shared_def)
  have good: "\<forall>s\<in>set (subscriptions bus_queued). topicPattern s \<noteq> []"
    "\<forall>s\<in>set (subscriptions bus_queued). \<forall>msg h. fst (handler s msg h) \<noteq> Throws foreign_exception"
    using subs bus2_good(1) bus2_no_foreign by simp_all
  have 1: "stop InWait bus_queued [7] = (Exited, bus_stopped, [7], [])"
    using T [where bus = bus_queued and pc = InWait and h = "[7]",
        THEN conjunct2, THEN conjunct2, THEN conjunct1, THEN mp, OF bus_queued_facts(1)]
    by (simp add: bus_stopped_facts(1))
  have 2: "worker_run [\<lambda>s. s] LoopHead bus_stopped [7] [] = (Exited, bus_stopped, [7], [])"
    by (rule T [THEN conjunct1, THEN mp, OF bus_stopped_facts(2)])
  from T [where bus = bus_queued and pc = InWait and h = "[7]" and served = "[]" and ev = ?ev
      and queue = "[]" and env = "\<lambda>s. s" and envs = "[]",
      THEN conjunct2, THEN conjunct2, THEN conjunct2, THEN conjunct1]
    bus_queued_facts(1,3) good
  obtain h1 calls where
    b: "dispatchLoop_body InWait bus_queued [7] []
          = (Loop, bus_queued\<lparr>messageQueue := []\<rparr>, h1, [] @ [(?ev, calls)])"
    and l: "list_all2 (call_of (message ?ev))
          (filter (\<lambda>s. match_spec (topicPattern s) (topic ?ev)) (subscriptions bus_queued)) calls"
    by blast
  from b have "calls = [(5, [7], Returns (Some (Typed (TypedResponse 0 False)))),
         (2, [7, 7], Throws (std_exception ''boom'')),
         (3, [7, 7, 7], Returns (Some (Void (TypedResponse_void True)))),
         (6, [7, 7, 7], Returns (Some (Typed (TypedResponse 7 True))))]"
    by (simp add: body_bus_queued)
  with l have 6: "list_all2 (call_of \<lparr>type_id = ''TradeEvent'', msg_data = 0\<rparr>)
        (filter (\<lambda>s. match_spec (topicPattern s) ''trade.test'') (subscriptions bus_queued))
        [(5, [7], Returns (Some (Typed (TypedResponse 0 False)))),
         (2, [7, 7], Throws (std_exception ''boom'')),
         (3, [7, 7, 7], Returns (Some (Void (TypedResponse_void True)))),
         (6, [7, 7, 7], Returns (Some (Typed (TypedResponse 7 True))))]"
    by simp
  have 4: "map sub_id (filter (\<lambda>s. match_spec (topicPattern s) ''trade.test'')
        (subscriptions bus_queued)) = [5, 2, 3, 6]"
    using matching_bus2 subs by simp
  have good_pending: "running bus_pending
        \<and> (\<forall>s\<in>set (subscriptions bus_pending). topicPattern s \<noteq> [])
        \<and> (\<forall>s\<in>set (subscriptions bus_pending). \<forall>msg h.
              fst (handler s msg h) \<noteq> Throws foreign_exception)
        \<and> (\<forall>env\<in>set [\<lambda>s :: (nat, nat) EventBus \<times> nat heap. s]. \<forall>s. env s = s)"
    using bus_pending_facts(1,2) bus2_good(1) bus2_no_foreign by simp
  note 7 = worker_bus_pending [folded worker_run_bus_pending]
  from T [where bus = bus_pending and envs = "[\<lambda>s. s]" and pc = LoopHead and h = "[7, 8]"
      and served = "[]", THEN conjunct2, THEN conjunct2, THEN conjunct2, THEN conjunct2,
      THEN conjunct1, THEN mp, OF good_pending]
  obtain g new where
    r: "worker_run [\<lambda>s. s] LoopHead bus_pending [7, 8] []
          = (Blocked, bus_pending\<lparr>messageQueue := []\<rparr>, g, [] @ new)"
    and cs: "\<forall>x\<in>set new. list_all2 (call_of (message (fst x)))
          (filter (\<lambda>s. match_spec (topicPattern s) (topic (fst x))) (subscriptions bus_pending))
          (snd x)"
    by blast
  from r have new: "new = [(\<lparr>topic = ''trade.test'',
               message = \<lparr>type_id = ''TradeEvent'', msg_data = 0\<rparr>\<rparr>,
            [(5, [7, 8], Returns (Some (Typed (TypedResponse 0 False)))),
             (2, [7, 8, 7], Throws (std_exception ''boom'')),
             (3, [7, 8, 7, 7], Returns (Some (Void (TypedResponse_void True)))),
             (6, [7, 8, 7, 7], Returns (Some (Typed (TypedResponse 7 True))))]),
           (\<lparr>topic = ''trade.other'', message = \<lparr>type_id = ''TradeEvent'', msg_data = 1\<rparr>\<rparr>,
            [(4, [7, 8, 7, 7, 0], Returns (Some (Typed (TypedResponse 8 True)))),
             (3, [7, 8, 7, 7, 0, 0], Returns (Some (Void (TypedResponse_void True))))])]"
    unfolding 7 by auto
  from cs have 8: "list_all2 (call_of \<lparr>type_id = ''TradeEvent'', msg_data = 1\<rparr>)
        (filter (\<lambda>s. match_spec (topicPattern s) ''trade.other'') (subscriptions bus_pending))
        [(4, [7, 8, 7, 7, 0], Returns (Some (Typed (TypedResponse 8 True)))),
         (3, [7, 8, 7, 7, 0, 0], Returns (Some (Void (TypedResponse_void True))))]"
    unfolding new by simp
  have 9: "\<not> running (bus_queued\<lparr>messageQueue := [], running := False\<rparr>)"
    by (rule T [THEN conjunct2, THEN conjunct1, THEN mp, OF worker_run_post_then_stop])
  have 11: "messageQueue (bus_queued\<lparr>running := False\<rparr>) = [?ev]"
    by (simp add: bus_queued_facts(3))
  show ?thesis
    by (intro conjI)
      (fact 1 2 bus_stopped_facts(3) 4 body_bus_queued 6
         7 8 worker_run_post_then_stop 9 worker_run_post_and_stop 11)+
qed

text \<open>
  Claim C3 as stated fails. The worker blocks on the empty queue; a message is enqueued
  and then \<^verbatim>\<open>stop\<close> is called; woken, the worker finds \<^verbatim>\<open>running_\<close> false and
  returns (EventBus.cpp, line 52), and \<^verbatim>\<open>stop\<close> returns, with the message still in the
  queue and nothing dispatched.
\<close>

theorem worker_exits_with_pending_message_counterexample:
  "dispatchLoop LoopHead (start bus2) [] [] = (Blocked, start bus2, [], [])
   \<and> postAsync ''TradeEvent'' ''trade.test'' 7 (start bus2) [] = (bus_queued, [7])
   \<and> stop InWait bus_queued [7] = (Exited, bus_stopped, [7], [])
   \<and> messageQueue bus_stopped
       = [\<lparr>topic = ''trade.test'', message = \<lparr>type_id = ''TradeEvent'', msg_data = 0\<rparr>\<rparr>]"
proof -
  have "running (start bus2)" "messageQueue (start bus2) = []"
    by (simp_all add: start_def bus2_idle)
  then have "dispatchLoop LoopHead (start bus2) [] [] = (Blocked, start bus2, [], [])"
    by simp
  then show ?thesis
    using bus_stopped_facts bus_queued_facts stop_running [of bus_queued InWait "[7]"]
    by simp
qed

subsection \<open>Failures in handlers\<close>

lemma post_no_std: "fst (post T tp m bus h) \<noteq> Inl (Uncaught (std_exception w))"
proof (cases "collect (subscriptions bus) tp []")
  case (Inl f)
  with collect_no_uncaught [of "subscriptions bus" tp "[]" "std_exception w"]
  show ?thesis by (auto simp: post_def TypedMessage_def make_shared_def)
next
  case (Inr handlers)
  with post_deliver_no_std [of handlers "\<lparr>type_id = T, msg_data = length h\<rparr>" "h @ [m]" "[]" "[]" w]
  show ?thesis by (simp add: post_def TypedMessage_def make_shared_def)
qed

text \<open>
  Claim C5, amended. A failure that derives from \<^verbatim>\<open>std::exception\<close>, thrown by a handler
  during \<^verbatim>\<open>post\<close> or during the worker's dispatch, is caught where the handler is
  called: the handler contributes no response and the loop goes on with the remaining
  handlers. No such failure leaves \<^verbatim>\<open>post\<close> or ends the worker; when no pattern is
  empty and every handler either returns a capsule or throws a \<^verbatim>\<open>std::exception\<close>,
  \<^verbatim>\<open>post\<close> returns its list and the running worker ends blocked on the empty queue.
  What a handler throws that does not derive from \<^verbatim>\<open>std::exception\<close> is not caught.
\<close>

theorem std_exception_is_caught:
  "(handler sub msg h = (Throws (std_exception w), h1) \<longrightarrow>
      post_deliver (sub # rest) msg h results calls
        = post_deliver rest msg h1 results (calls @ [(sub_id sub, h, Throws (std_exception w))])
      \<and> worker_deliver (sub # rest) msg h calls
        = worker_deliver rest msg h1 (calls @ [(sub_id sub, h, Throws (std_exception w))]))
   \<and> fst (post T tp m bus h) \<noteq> Inl (Uncaught (std_exception w'))
   \<and> fst (dispatchLoop pc bus h served) \<noteq> Crashed (Uncaught (std_exception w'))
   \<and> ((\<forall>s\<in>set (subscriptions bus). topicPattern s \<noteq> [])
        \<and> (\<forall>s\<in>set (subscriptions bus). \<forall>msg h. well_behaved (fst (handler s msg h)))
      \<longrightarrow> (\<exists>rs. fst (post T tp m bus h) = Inr rs)
          \<and> (running bus \<longrightarrow> fst (dispatchLoop pc bus h served) = Blocked))"
proof -
  have "\<exists>rs. fst (post T tp m bus h) = Inr rs"
    if "\<forall>s\<in>set (subscriptions bus). topicPattern s \<noteq> []"
      and "\<forall>s\<in>set (subscriptions bus). \<forall>msg h. well_behaved (fst (handler s msg h))"
    using post_on_good_registry [OF that, of T tp m h] by auto
  moreover have "fst (dispatchLoop pc bus h served) = Blocked"
    if "\<forall>s\<in>set (subscriptions bus). topicPattern s \<noteq> []"
      and "\<forall>s\<in>set (subscriptions bus). \<forall>msg h. well_behaved (fst (handler s msg h))"
      and "running bus"
  proof -
    have "\<forall>s\<in>set (subscriptions bus). \<forall>msg h. fst (handler s msg h) \<noteq> Throws foreign_exception"
      using that(2) by (auto simp: well_behaved_def)
    from dispatchLoop_drains [OF that(3,1) this, of pc h served] show ?thesis by auto
  qed
  ultimately show ?thesis
    using post_no_std [of T tp m bus h w'] dispatchLoop_no_std [of pc bus h served w']
    by auto
qed

theorem std_exception_is_caught_witness:
  "post_deliver
      [\<lparr>sub_id = 1, topicPattern = ''*'',
        handler = (\<lambda>msg h. (Throws (std_exception ''boom''), h)), priority = 0\<rparr>,
       \<lparr>sub_id = 2, topicPattern = ''*'', handler = wrappedHandler ''TradeEvent'' ok_handler,
        priority = 0\<rparr>]
      \<lparr>type_id = ''TradeEvent'', msg_data = 0\<rparr> [7, 8] [] []
     = (Inr [Typed (TypedResponse 7 True)], [7, 8, 0],
        [(1, [7, 8], Throws (std_exception ''boom'')),
         (2, [7, 8], Returns (Some (Typed (TypedResponse 7 True))))])
   \<and> running bus_pending
   \<and> fst (dispatchLoop LoopHead bus_pending [7, 8] []) = Blocked"
proof -
  let ?thrower = "\<lparr>sub_id = 1, topicPattern = ''*'',
        handler = (\<lambda>msg h. (Throws (std_exception ''boom'') :: nat outcome, h :: nat heap)),
        priority = 0\<rparr>"
  have "(\<forall>s\<in>set (subscriptions bus_pending). topicPattern s \<noteq> [])
        \<and> (\<forall>s\<in>set (subscriptions bus_pending). \<forall>msg h. well_behaved (fst (handler s msg h)))"
    using bus2_good bus_pending_facts(2) by simp
  with std_exception_is_caught [where sub = ?thrower
      and msg = "\<lparr>type_id = ''TradeEvent'', msg_data = 0\<rparr>" and h = "[7, 8]"
      and w = "''boom''" and ?h1.0 = "[7, 8]"
      and rest = "[\<lparr>sub_id = 2, topicPattern = ''*'',
        handler = wrappedHandler ''TradeEvent'' ok_handler, priority = 0\<rparr>]"
      and results = "[]" and calls = "[]" and T = "''TradeEvent''" and tp = "''trade.test''"
      and m = 7 and bus = bus_pending and w' = "''boom''" and pc = LoopHead and served = "[]"]
    bus_pending_facts(1)
  show ?thesis by (simp add: scenario_defs)
qed

text \<open>
  Claim C5 as stated fails for a failure that is not a \<^verbatim>\<open>std::exception\<close>: the first
  handler throws one; \<^verbatim>\<open>post\<close> is left by it, with the second handler never called,
  and the worker dies of it.
\<close>

theorem foreign_exception_escapes_counterexample:
  "post ''TradeEvent'' ''trade.test'' 7 bus_foreign []
     = (Inl (Uncaught foreign_exception), [7, 7], [(1, [7], Throws foreign_exception)])
   \<and> fst (dispatchLoop LoopHead bus_foreign_pending [7] []) = Crashed (Uncaught foreign_exception)"
  by (simp add: scenario_defs more_scenario_defs worker_scenario_defs run_ops_frame)

subsection \<open>Unsubscribing\<close>

lemma apply_op_counter:
  assumes "unat (handlerIdCounter (fst st)) + length (filter is_Subscribe [op]) < 2 ^ 64"
  shows "unat (handlerIdCounter (fst (apply_op op st)))
         = unat (handlerIdCounter (fst st)) + length (filter is_Subscribe [op])"
proof (cases op)
  case (Subscribe T pat f prio)
  then have "unat (handlerIdCounter (fst st)) + 1 < 2 ^ 64" using assms by simp
  from word64_succ(1) [OF this] Subscribe show ?thesis
    by (cases st) (simp add: subscribe_def Let_def)
next
  case (Unsubscribe i)
  then show ?thesis by (cases st) (simp add: unsubscribe_def)
qed

lemma run_ops_counter:
  assumes "unat (handlerIdCounter (fst st)) + length (filter is_Subscribe ops) < 2 ^ 64"
  shows "unat (handlerIdCounter (fst (run_ops ops st)))
         = unat (handlerIdCounter (fst st)) + length (filter is_Subscribe ops)"
  using assms
proof (induction ops arbitrary: st)
  case Nil
  then show ?case by simp
next
  case (Cons op ops)
  have 1: "unat (handlerIdCounter (fst st)) + length (filter is_Subscribe [op]) < 2 ^ 64"
    using Cons.prems by (cases "is_Subscribe op") simp_all
  note c = apply_op_counter [OF 1]
  have "unat (handlerIdCounter (fst (apply_op op st))) + length (filter is_Subscribe ops) < 2 ^ 64"
    using Cons.prems c by (cases "is_Subscribe op") simp_all
  from Cons.IH [OF this] c show ?case by (cases "is_Subscribe op") simp_all
qed

text \<open>Below the wrap, an identifier that is not above the counter is never issued again.\<close>

lemma apply_op_absent:
  assumes "i \<le> handlerIdCounter (fst st)"
    and "i \<notin> sub_id ` set (subscriptions (fst st))"
    and "unat (handlerIdCounter (fst st)) + length (filter is_Subscribe [op]) < 2 ^ 64"
  shows "i \<le> handlerIdCounter (fst (apply_op op st))
       \<and> i \<notin> sub_id ` set (subscriptions (fst (apply_op op st)))"
proof (cases op)
  case (Subscribe T pat f prio)
  then have room: "unat (handlerIdCounter (fst st)) + 1 < 2 ^ 64" using assms(3) by simp
  have lt: "handlerIdCounter (fst st) < handlerIdCounter (fst st) + 1"
    using word64_succ(2) [OF room] .
  with assms(1) have "i < handlerIdCounter (fst st) + 1" by simp
  then have "i \<noteq> handlerIdCounter (fst st) + 1" "i \<le> handlerIdCounter (fst st) + 1" by simp_all
  with assms(2) Subscribe show ?thesis
    by (cases st) (auto simp: subscribe_def Let_def set_stable_sort)
next
  case (Unsubscribe j)
  with assms(1,2) show ?thesis
    by (cases st) (auto simp: unsubscribe_def remove_if_filter)
qed

lemma run_ops_absent:
  assumes "i \<le> handlerIdCounter (fst st)"
    and "i \<notin> sub_id ` set (subscriptions (fst st))"
    and "unat (handlerIdCounter (fst st)) + length (filter is_Subscribe ops) < 2 ^ 64"
  shows "i \<notin> sub_id ` set (subscriptions (fst (run_ops ops st)))"
  using assms
proof (induction ops arbitrary: st)
  case Nil
  then show ?case by simp
next
  case (Cons op ops)
  have 1: "unat (handlerIdCounter (fst st)) + length (filter is_Subscribe [op]) < 2 ^ 64"
    using Cons.prems(3) by (cases "is_Subscribe op") simp_all
  from apply_op_absent [OF Cons.prems(1,2) 1]
  have a: "i \<le> handlerIdCounter (fst (apply_op op st))"
    and b: "i \<notin> sub_id ` set (subscriptions (fst (apply_op op st)))"
    by simp_all
  have "unat (handlerIdCounter (fst (apply_op op st))) + length (filter is_Subscribe ops) < 2 ^ 64"
    using Cons.prems(3) apply_op_counter [OF 1] by (cases "is_Subscribe op") simp_all
  from Cons.IH [OF a b this] show ?case by simp
qed

lemma unsubscribed_stays_absent:
  assumes n: "length (filter is_Subscribe (before @ after)) < 2 ^ 64"
    and i: "i \<in> set (snd (run_ops before (EventBus_init, [])))"
  shows "i \<notin> sub_id ` set (subscriptions
            (fst (run_ops (before @ Unsubscribe i # after) (EventBus_init, []))))"
proof -
  let ?init = "(EventBus_init :: ('a, 'b) EventBus, [] :: HandlerId list)"
  let ?st1 = "run_ops before ?init"
  let ?st2 = "apply_op (Unsubscribe i) ?st1"
  have c0: "unat (handlerIdCounter (fst ?init)) = 0" by (simp add: EventBus_init_def)
  have nb: "unat (handlerIdCounter (fst ?init)) + length (filter is_Subscribe before) < 2 ^ 64"
    using n c0 by simp
  have "registry_invariant ?init" "counter_bound ?init"
    by (simp_all add: registry_invariant_def counter_bound_def EventBus_init_def)
  from run_ops_invariant [OF this nb] have "counter_bound ?st1" by simp
  with i have le1: "i \<le> handlerIdCounter (fst ?st1)" by (simp add: counter_bound_def)
  have c1: "unat (handlerIdCounter (fst ?st1)) = length (filter is_Subscribe before)"
    using run_ops_counter [OF nb] c0 by simp
  have le2: "i \<le> handlerIdCounter (fst ?st2)"
    using le1 by (cases ?st1) (simp add: unsubscribe_def)
  have ab2: "i \<notin> sub_id ` set (subscriptions (fst ?st2))"
    by (cases ?st1) (auto simp: unsubscribe_def remove_if_filter)
  have c2: "unat (handlerIdCounter (fst ?st2)) + length (filter is_Subscribe after) < 2 ^ 64"
    using c1 n by (cases ?st1) (simp add: unsubscribe_def)
  from run_ops_absent [OF le2 ab2 c2] show ?thesis by (simp add: run_ops_append)
qed

lemma post_calls_ids:
  "fst ` set (snd (snd (post T tp m bus h))) \<subseteq> sub_id ` set (subscriptions bus)"
proof (cases "collect (subscriptions bus) tp []")
  case (Inl f)
  then show ?thesis by (simp add: post_def TypedMessage_def make_shared_def)
next
  case (Inr handlers)
  have hs: "set handlers \<subseteq> set (subscriptions bus)"
    using collect_result [OF Inr] by auto
  let ?r = "post_deliver handlers \<lparr>type_id = T, msg_data = length h\<rparr> (h @ [m]) [] []"
  obtain res h' calls where d: "?r = (res, h', calls)" by (cases ?r)
  from post_deliver_calls_ids [OF d] hs
  have "fst ` set calls \<subseteq> sub_id ` set (subscriptions bus)" by auto
  with Inr d show ?thesis by (simp add: post_def TypedMessage_def make_shared_def)
qed

lemma dispatchLoop_calls_ids_all:
  assumes "x \<in> set (snd (snd (snd (dispatchLoop pc bus h []))))"
  shows "fst ` set (snd x) \<subseteq> sub_id ` set (subscriptions bus)"
proof -
  obtain e bus' h' served' where d: "dispatchLoop pc bus h [] = (e, bus', h', served')"
    by (cases "dispatchLoop pc bus h []") auto
  with assms have "(fst x, snd x) \<in> set served'" by simp
  from dispatchLoop_calls_ids [OF d this] show ?thesis by simp
qed

text \<open>
  Claim C9. \<^verbatim>\<open>unsubscribe(id)\<close> leaves in the registry exactly the subscriptions whose
  identifier differs from \<open>id\<close>, as they were and in their order, and changes nothing else
  of the bus; it changes nothing at all when no subscription has that identifier.
  Afterwards no subscription has the identifier; on a bus where none has it, neither
  \<^verbatim>\<open>post\<close> nor the worker, whichever message it dispatches, calls a handler under it;
  and, below the wrap of the counter, no later \<^verbatim>\<open>subscribe\<close> or \<^verbatim>\<open>unsubscribe\<close>
  brings an identifier that was issued and then unsubscribed back into the registry.
\<close>

theorem unsubscribe_removes_exactly_id:
  "subscriptions (unsubscribe i bus) = filter (\<lambda>sub. sub_id sub \<noteq> i) (subscriptions bus)
   \<and> messageQueue (unsubscribe i bus) = messageQueue bus
   \<and> running (unsubscribe i bus) = running bus
   \<and> dispatchThread (unsubscribe i bus) = dispatchThread bus
   \<and> handlerIdCounter (unsubscribe i bus) = handlerIdCounter bus
   \<and> (i \<notin> sub_id ` set (subscriptions bus) \<longrightarrow> unsubscribe i bus = bus)
   \<and> i \<notin> sub_id ` set (subscriptions (unsubscribe i bus))
   \<and> (i \<notin> sub_id ` set (subscriptions b) \<longrightarrow>
        i \<notin> fst ` set (snd (snd (post T tp m b h)))
        \<and> (\<forall>x\<in>set (snd (snd (snd (dispatchLoop pc b h [])))). i \<notin> fst ` set (snd x)))
   \<and> (length (filter is_Subscribe (before @ after)) < 2 ^ 64
        \<and> i \<in> set (snd (run_ops before (EventBus_init :: ('v, 'r) EventBus, []))) \<longrightarrow>
        i \<notin> sub_id ` set (subscriptions
              (fst (run_ops (before @ Unsubscribe i # after)
                     (EventBus_init :: ('v, 'r) EventBus, [])))))"
proof -
  have s: "subscriptions (unsubscribe i bus) = filter (\<lambda>sub. sub_id sub \<noteq> i) (subscriptions bus)"
    by (simp add: unsubscribe_def remove_if_filter)
  then have gone: "i \<notin> sub_id ` set (subscriptions (unsubscribe i bus))" by auto
  have noop: "unsubscribe i bus = bus" if "i \<notin> sub_id ` set (subscriptions bus)"
  proof -
    have "filter (\<lambda>sub. sub_id sub \<noteq> i) (subscriptions bus) = subscriptions bus"
      using that by (auto simp: filter_id_conv)
    then show ?thesis by (simp add: unsubscribe_def remove_if_filter)
  qed
  have p: "i \<notin> fst ` set (snd (snd (post T tp m b h)))"
    if "i \<notin> sub_id ` set (subscriptions b)"
    using post_calls_ids [of T tp m b h] that by blast
  have w: "i \<notin> fst ` set (snd x)"
    if "i \<notin> sub_id ` set (subscriptions b)"
      and "x \<in> set (snd (snd (snd (dispatchLoop pc b h []))))" for x
    using dispatchLoop_calls_ids_all [OF that(2)] that(1) by blast
  have later: "i \<notin> sub_id ` set (subscriptions
              (fst (run_ops (before @ Unsubscribe i # after)
                     (EventBus_init :: ('v, 'r) EventBus, []))))"
    if "length (filter is_Subscribe (before @ after)) < 2 ^ 64"
      and "i \<in> set (snd (run_ops before (EventBus_init :: ('v, 'r) EventBus, [])))"
    using unsubscribed_stays_absent [OF that] .
  have frame: "messageQueue (unsubscribe i bus) = messageQueue bus
      \<and> running (unsubscribe i bus) = running bus
      \<and> dispatchThread (unsubscribe i bus) = dispatchThread bus
      \<and> handlerIdCounter (unsubscribe i bus) = handlerIdCounter bus"
    by (simp add: unsubscribe_def)
  from s frame noop gone p w later show ?thesis by blast
qed

theorem unsubscribe_removes_exactly_id_witness:
  "map sub_id (subscriptions bus2) = [5, 4, 2, 3, 6]
   \<and> map sub_id (subscriptions (unsubscribe 2 bus2)) = [5, 4, 3, 6]
   \<and> unsubscribe 1 bus2 = bus2
   \<and> map fst (snd (snd (post ''TradeEvent'' ''trade.test'' 7 bus2 []))) = [5, 2, 3, 6]
   \<and> map fst (snd (snd (post ''TradeEvent'' ''trade.test'' 7 (unsubscribe 2 bus2) []))) = [5, 3, 6]
   \<and> 1 \<notin> fst ` set (snd (snd (post ''TradeEvent'' ''trade.test'' 7 bus2 [])))
   \<and> snd (run_ops (take 4 ops2) (EventBus_init, [])) = [1, 2, 3, 4]
   \<and> 1 \<notin> sub_id ` set (subscriptions (fst (run_ops ops2 (EventBus_init, []))))"
proof -
  have "set (map sub_id (subscriptions bus2)) = set [5, 4, 2, 3, 6]"
    using subscriptions_bus2 by simp
  then have absent: "1 \<notin> sub_id ` set (subscriptions bus2)" by simp
  have ops: "ops2 = take 4 ops2 @ Unsubscribe 1 # drop 5 ops2" by (simp add: ops2_def)
  have issued: "snd (run_ops (take 4 ops2) (EventBus_init :: (nat, nat) EventBus, [])) = [1, 2, 3, 4]"
    by (simp add: scenario_defs)
  have few: "length (filter is_Subscribe (take 4 ops2 @ drop 5 ops2)) < 2 ^ 64"
    by (simp add: ops2_def)
  from unsubscribe_removes_exactly_id [where i = 1 and bus = bus2 and b = bus2
      and T = "''TradeEvent''" and tp = "''trade.test''" and m = 7 and h = "[]"
      and before = "take 4 ops2" and after = "drop 5 ops2"]
    absent issued few ops
  have "unsubscribe 1 bus2 = bus2
      \<and> 1 \<notin> fst ` set (snd (snd (post ''TradeEvent'' ''trade.test'' 7 bus2 [])))
      \<and> 1 \<notin> sub_id ` set (subscriptions (fst (run_ops ops2 (EventBus_init, []))))"
    by simp
  with unsubscribe_removes_exactly_id [where i = 2 and bus = bus2] subscriptions_bus2 post_bus2
    issued
  show ?thesis by (simp add: scenario_defs)
qed

subsection \<open>Copies of the payload\<close>

lemma apply_op_adapted:
  assumes "\<forall>s\<in>set (subscriptions (fst st)). adapted s" and "confined_op op"
  shows "\<forall>s\<in>set (subscriptions (fst (apply_op op st))). adapted s"
proof (cases op)
  case (Subscribe T pat f prio)
  obtain bus ids where st: "st = (bus, ids)" by (cases st)
  have "adapted \<lparr>sub_id = handlerIdCounter bus + 1, topicPattern = pat,
                 handler = wrappedHandler T f, priority = prio\<rparr>"
    using assms(2) Subscribe by (auto simp: adapted_def)
  with assms(1) st Subscribe show ?thesis
    by (auto simp: subscribe_def Let_def set_stable_sort)
next
  case (Unsubscribe i)
  with assms(1) show ?thesis
    by (cases st) (auto simp: unsubscribe_def remove_if_filter)
qed

lemma run_ops_adapted:
  assumes "\<forall>s\<in>set (subscriptions (fst st)). adapted s" and "\<forall>op\<in>set ops. confined_op op"
  shows "\<forall>s\<in>set (subscriptions (fst (run_ops ops st))). adapted s"
  using assms
proof (induction ops arbitrary: st)
  case Nil
  then show ?case by simp
next
  case (Cons op ops)
  have "\<forall>s\<in>set (subscriptions (fst (apply_op op st))). adapted s"
    using apply_op_adapted [of st op] Cons.prems by simp
  from Cons.IH [OF this] Cons.prems(2) show ?case by simp
qed

text \<open>The calls of a delivery loop are the calls of the leading handlers of its list.\<close>

lemma post_deliver_calls_of:
  "post_deliver subs msg h results calls = (res, h', calls') \<Longrightarrow>
   \<exists>new. calls' = calls @ new \<and> list_all2 (call_of msg) (take (length new) subs) new"
proof (induction subs arbitrary: h results calls)
  case Nil
  then show ?case by simp
next
  case (Cons sub rest)
  obtain out h1 where o: "handler sub msg h = (out, h1)" by (cases "handler sub msg h")
  have c: "call_of msg sub (sub_id sub, h, out)" using o by (simp add: call_of_def)
  show ?case
  proof (cases "post_try out results")
    case (Inl f)
    with Cons.prems o have "calls' = calls @ [(sub_id sub, h, out)]" by auto
    moreover have "list_all2 (call_of msg) (take (length [(sub_id sub, h, out)]) (sub # rest))
        [(sub_id sub, h, out)]"
      using c by simp
    ultimately show ?thesis by blast
  next
    case (Inr results')
    with Cons.prems o
    have "post_deliver rest msg h1 results' (calls @ [(sub_id sub, h, out)]) = (res, h', calls')"
      by simp
    from Cons.IH [OF this] obtain new where
      n: "calls' = (calls @ [(sub_id sub, h, out)]) @ new"
      and l: "list_all2 (call_of msg) (take (length new) rest) new"
      by blast
    have "calls' = calls @ ((sub_id sub, h, out) # new)" using n by simp
    moreover have "list_all2 (call_of msg)
        (take (length ((sub_id sub, h, out) # new)) (sub # rest)) ((sub_id sub, h, out) # new)"
      using c l by simp
    ultimately show ?thesis by blast
  qed
qed

lemma worker_deliver_calls_of:
  "worker_deliver subs msg h calls = (res, h', calls') \<Longrightarrow>
   \<exists>new. calls' = calls @ new \<and> list_all2 (call_of msg) (take (length new) subs) new"
proof (induction subs arbitrary: h calls)
  case Nil
  then show ?case by simp
next
  case (Cons sub rest)
  obtain out h1 where o: "handler sub msg h = (out, h1)" by (cases "handler sub msg h")
  have c: "call_of msg sub (sub_id sub, h, out)" using o by (simp add: call_of_def)
  show ?case
  proof (cases "worker_try out")
    case (Inl f)
    with Cons.prems o have "calls' = calls @ [(sub_id sub, h, out)]" by auto
    moreover have "list_all2 (call_of msg) (take (length [(sub_id sub, h, out)]) (sub # rest))
        [(sub_id sub, h, out)]"
      using c by simp
    ultimately show ?thesis by blast
  next
    case (Inr u)
    with Cons.prems o
    have "worker_deliver rest msg h1 (calls @ [(sub_id sub, h, out)]) = (res, h', calls')"
      by simp
    from Cons.IH [OF this] obtain new where
      n: "calls' = (calls @ [(sub_id sub, h, out)]) @ new"
      and l: "list_all2 (call_of msg) (take (length new) rest) new"
      by blast
    have "calls' = calls @ ((sub_id sub, h, out) # new)" using n by simp
    moreover have "list_all2 (call_of msg)
        (take (length ((sub_id sub, h, out) # new)) (sub # rest)) ((sub_id sub, h, out) # new)"
      using c l by simp
    ultimately show ?thesis by blast
  qed
qed

lemma post_calls_of:
  assumes "post T tp m bus h = (res, h', calls)"
  shows "list_all2 (call_of \<lparr>type_id = T, msg_data = length h\<rparr>)
           (take (length calls)
              (filter (\<lambda>s. isTopicMatch (topicPattern s) tp = Inr True) (subscriptions bus)))
           calls"
proof (cases "collect (subscriptions bus) tp []")
  case (Inl f)
  with assms have "calls = []" by (auto simp: post_def TypedMessage_def make_shared_def)
  then show ?thesis by simp
next
  case (Inr handlers)
  have hs: "handlers = filter (\<lambda>s. isTopicMatch (topicPattern s) tp = Inr True) (subscriptions bus)"
    using collect_result [OF Inr] by simp
  have "post_deliver handlers \<lparr>type_id = T, msg_data = length h\<rparr> (h @ [m]) [] [] = (res, h', calls)"
    using assms Inr by (simp add: post_def TypedMessage_def make_shared_def)
  from post_deliver_calls_of [OF this] hs show ?thesis by auto
qed

text \<open>
  Every message the worker has dispatched was in the queue, and the calls made for it are
  the calls of the leading matching handlers on its envelope.
\<close>

lemma dispatchLoop_served_calls_of:
  assumes "dispatchLoop pc bus h served = (e, bus', h', served')"
    and "x \<in> set served'"
  shows "x \<in> set served
     \<or> (fst x \<in> set (messageQueue bus)
        \<and> list_all2 (call_of (message (fst x)))
            (take (length (snd x))
               (filter (\<lambda>s. isTopicMatch (topicPattern s) (topic (fst x)) = Inr True)
                  (subscriptions bus)))
            (snd x))"
  using assms
proof (induction pc bus h served rule: dispatchLoop.induct)
  case (1 bus h served)
  then show ?case by (cases "running bus") auto
next
  case (2 bus h served)
  show ?case
  proof (cases "running bus")
    case False
    with "2.prems" show ?thesis by auto
  next
    case True
    show ?thesis
    proof (cases "messageQueue bus")
      case Nil
      with True "2.prems" show ?thesis by auto
    next
      case (Cons event queue)
      show ?thesis
      proof (cases "collect (subscriptions bus) (topic event) []")
        case (Inl f)
        with True Cons "2.prems" show ?thesis by auto
      next
        case (Inr handlers)
        have hs: "handlers = filter (\<lambda>s. isTopicMatch (topicPattern s) (topic event) = Inr True)
            (subscriptions bus)"
          using collect_result [OF Inr] by simp
        obtain res h1 cs where w: "worker_deliver handlers (message event) h [] = (res, h1, cs)"
          by (cases "worker_deliver handlers (message event) h []")
        from worker_deliver_calls_of [OF w]
        have l: "list_all2 (call_of (message event)) (take (length cs) handlers) cs" by auto
        have this_one: "fst (event, cs) \<in> set (messageQueue bus)
            \<and> list_all2 (call_of (message (fst (event, cs))))
                (take (length (snd (event, cs)))
                   (filter (\<lambda>s. isTopicMatch (topicPattern s) (topic (fst (event, cs))) = Inr True)
                      (subscriptions bus)))
                (snd (event, cs))"
          using l hs Cons by simp
        show ?thesis
        proof (cases res)
          case (Inl f)
          with True Cons Inr w "2.prems"
          have "x \<in> set served \<or> x = (event, cs)" by auto
          with this_one show ?thesis by blast
        next
          case r: (Inr u)
          have d: "dispatchLoop LoopHead (bus\<lparr>messageQueue := queue\<rparr>) h1 (served @ [(event, cs)])
                = (e, bus', h', served')"
            using True Cons Inr w r "2.prems"(1) by simp
          from "2.IH" [OF _ _ Cons Inr w [symmetric, unfolded r] refl refl d "2.prems"(2)] True Cons
          have "x \<in> set served \<or> x = (event, cs)
              \<or> (fst x \<in> set queue
                 \<and> list_all2 (call_of (message (fst x)))
                     (take (length (snd x))
                        (filter (\<lambda>s. isTopicMatch (topicPattern s) (topic (fst x)) = Inr True)
                           (subscriptions bus)))
                     (snd x))"
            by auto
          with this_one Cons show ?thesis by auto
        qed
      qed
    qed
  qed
qed

text \<open>A call on an envelope whose cell holds \<open>m\<close> at the call hands \<open>m\<close> over.\<close>

lemma call_of_delivers:
  assumes "call_of msg sub c" and "fst (snd c) ! msg_data msg = m"
  shows "delivers msg m sub c"
proof -
  have "snd (snd c) =
      (if T = type_id msg then fst (f (length (fst (snd c))) (fst (snd c) @ [m]))
       else Returns (Some (Void TypedResponse_void_default)))"
    if "handler sub = wrappedHandler T f" for T f
  proof (cases "type_id msg = T")
    case True
    with assms that show ?thesis
      by (simp add: call_of_def wrappedHandler_match)
  next
    case False
    with assms that show ?thesis
      by (auto simp: call_of_def wrappedHandler_mismatch TypedResponse_void_default_def)
  qed
  with assms(1) show ?thesis by (simp add: delivers_def call_of_def)
qed

lemma list_all2_call_of_delivers:
  assumes "list_all2 (call_of msg) subs cs"
    and "\<forall>c\<in>set cs. fst (snd c) ! msg_data msg = m"
  shows "list_all2 (delivers msg m) subs cs"
  using assms
proof (induction rule: list_all2_induct)
  case Nil
  then show ?case by simp
next
  case (Cons sub c subs cs)
  then show ?case by (simp add: call_of_delivers)
qed

text \<open>A delivery loop that is not left by a fault has called every handler of its list.\<close>

lemma post_deliver_complete:
  "post_deliver subs msg h results calls = (Inr rs, h', calls') \<Longrightarrow>
   length calls' = length calls + length subs"
proof (induction subs arbitrary: h results calls)
  case Nil
  then show ?case by simp
next
  case (Cons sub rest)
  obtain out h1 where o: "handler sub msg h = (out, h1)" by (cases "handler sub msg h")
  show ?case
  proof (cases "post_try out results")
    case (Inl f)
    with Cons.prems o show ?thesis by simp
  next
    case (Inr results')
    with Cons.prems o
    have "post_deliver rest msg h1 results' (calls @ [(sub_id sub, h, out)]) = (Inr rs, h', calls')"
      by simp
    from Cons.IH [OF this] show ?thesis by simp
  qed
qed

lemma worker_deliver_complete:
  "worker_deliver subs msg h calls = (Inr u, h', calls') \<Longrightarrow>
   length calls' = length calls + length subs"
proof (induction subs arbitrary: h calls)
  case Nil
  then show ?case by simp
next
  case (Cons sub rest)
  obtain out h1 where o: "handler sub msg h = (out, h1)" by (cases "handler sub msg h")
  show ?case
  proof (cases "worker_try out")
    case (Inl f)
    with Cons.prems o show ?thesis by simp
  next
    case (Inr v)
    with Cons.prems o
    have "worker_deliver rest msg h1 (calls @ [(sub_id sub, h, out)]) = (Inr u, h', calls')"
      by simp
    from Cons.IH [OF this] show ?thesis by simp
  qed
qed

lemma post_complete:
  assumes "post T tp m bus h = (Inr rs, h', calls)"
  shows "length calls
    = length (filter (\<lambda>s. isTopicMatch (topicPattern s) tp = Inr True) (subscriptions bus))"
proof (cases "collect (subscriptions bus) tp []")
  case (Inl f)
  with assms show ?thesis by (simp add: post_def TypedMessage_def make_shared_def)
next
  case (Inr handlers)
  have hs: "handlers = filter (\<lambda>s. isTopicMatch (topicPattern s) tp = Inr True) (subscriptions bus)"
    using collect_result [OF Inr] by simp
  have "post_deliver handlers \<lparr>type_id = T, msg_data = length h\<rparr> (h @ [m]) [] [] = (Inr rs, h', calls)"
    using assms Inr by (simp add: post_def TypedMessage_def make_shared_def)
  from post_deliver_complete [OF this] hs show ?thesis by simp
qed

lemma dispatchLoop_served_complete:
  assumes "dispatchLoop pc bus h served = (e, bus', h', served')"
    and "\<forall>f. e \<noteq> Crashed f"
    and "x \<in> set served'"
  shows "x \<in> set served
     \<or> length (snd x)
         = length (filter (\<lambda>s. isTopicMatch (topicPattern s) (topic (fst x)) = Inr True)
                     (subscriptions bus))"
  using assms
proof (induction pc bus h served rule: dispatchLoop.induct)
  case (1 bus h served)
  then show ?case by (cases "running bus") auto
next
  case (2 bus h served)
  show ?case
  proof (cases "running bus")
    case False
    with "2.prems" show ?thesis by auto
  next
    case True
    show ?thesis
    proof (cases "messageQueue bus")
      case Nil
      with True "2.prems" show ?thesis by auto
    next
      case (Cons event queue)
      show ?thesis
      proof (cases "collect (subscriptions bus) (topic event) []")
        case (Inl f)
        with True Cons "2.prems" show ?thesis by auto
      next
        case (Inr handlers)
        have hs: "handlers = filter (\<lambda>s. isTopicMatch (topicPattern s) (topic event) = Inr True)
            (subscriptions bus)"
          using collect_result [OF Inr] by simp
        obtain res h1 cs where w: "worker_deliver handlers (message event) h [] = (res, h1, cs)"
          by (cases "worker_deliver handlers (message event) h []")
        show ?thesis
        proof (cases res)
          case (Inl f)
          with True Cons Inr w "2.prems"(1) have "e = Crashed f" by simp
          with "2.prems"(2) show ?thesis by simp
        next
          case r: (Inr u)
          have len: "length cs = length handlers"
            using worker_deliver_complete [OF w [unfolded r]] by simp
          have d: "dispatchLoop LoopHead (bus\<lparr>messageQueue := queue\<rparr>) h1 (served @ [(event, cs)])
                = (e, bus', h', served')"
            using True Cons Inr w r "2.prems"(1) by simp
          from "2.IH" [OF _ _ Cons Inr w [symmetric, unfolded r] refl refl d "2.prems"(2,3)] True Cons
          have "x \<in> set served \<or> x = (event, cs)
              \<or> length (snd x)
                  = length (filter (\<lambda>s. isTopicMatch (topicPattern s) (topic (fst x)) = Inr True)
                      (subscriptions bus))"
            by auto
          with len hs show ?thesis by auto
        qed
      qed
    qed
  qed
qed

text \<open>
  Claim C10. The handlers registered are confined: they write only through the pointer
  they are given; the registry then holds adapters of such handlers only. On a type match,
  the adapter calls the original handler with the address of a new cell, one past the
  store, that holds a copy of the envelope's payload. \<^verbatim>\<open>postAsync\<close> puts the posted
  value into a new cell and queues an envelope that points to it. During \<^verbatim>\<open>post\<close> the
  envelope's cell holds the posted value at every call of a handler and when \<^verbatim>\<open>post\<close>
  is left; the calls made are the calls of the matching handlers, in the order of the
  registry (all of them unless a fault leaves \<^verbatim>\<open>post\<close>), and each hands the posted
  value over: on a type match its outcome is what the original handler does with the
  address of a new cell that holds the posted value, on a mismatch it is the void
  capsule. While the worker runs, every cell that existed when it began is unchanged at
  every call and in the end; when the payloads of the queued envelopes are among these
  cells, every message served is one of the queue, the calls made for it are the calls of
  the handlers that match its topic, in the order of the registry (all of them unless
  the worker dies), and each hands over the value that the envelope's cell held when the
  worker began, whatever the handlers before it wrote.
\<close>

theorem handlers_receive_fresh_copy:
  assumes "\<forall>op\<in>set ops. confined_op op"
    and "subscriptions bus = subscriptions (fst (run_ops ops (EventBus_init, [])))"
    and "post T tp m bus h = (res, h', calls)"
    and "dispatchLoop pc bus h0 [] = (e, bus', h0', served)"
  shows "wrappedHandler T f \<lparr>type_id = T, msg_data = a\<rparr> hc = f (length hc) (hc @ [hc ! a])
    \<and> postAsync T tp m bus h
        = (bus\<lparr>messageQueue := messageQueue bus
                  @ [\<lparr>topic = tp, message = \<lparr>type_id = T, msg_data = length h\<rparr>\<rparr>]\<rparr>, h @ [m])
    \<and> h' ! length h = m
    \<and> (\<forall>c\<in>set calls. length h < length (fst (snd c)) \<and> fst (snd c) ! length h = m)
    \<and> list_all2 (delivers \<lparr>type_id = T, msg_data = length h\<rparr> m)
         (take (length calls)
            (filter (\<lambda>s. isTopicMatch (topicPattern s) tp = Inr True) (subscriptions bus)))
         calls
    \<and> ((\<forall>f. res \<noteq> Inl f) \<longrightarrow>
         length calls
           = length (filter (\<lambda>s. isTopicMatch (topicPattern s) tp = Inr True) (subscriptions bus)))
    \<and> (\<forall>a<length h0. h0' ! a = h0 ! a
          \<and> (\<forall>x\<in>set served. \<forall>c\<in>set (snd x).
                a < length (fst (snd c)) \<and> fst (snd c) ! a = h0 ! a))
    \<and> ((\<forall>ev\<in>set (messageQueue bus). msg_data (message ev) < length h0) \<longrightarrow>
         (\<forall>x\<in>set served.
            fst x \<in> set (messageQueue bus)
            \<and> list_all2 (delivers (message (fst x)) (h0 ! msg_data (message (fst x))))
                (take (length (snd x))
                   (filter (\<lambda>s. isTopicMatch (topicPattern s) (topic (fst x)) = Inr True)
                      (subscriptions bus)))
                (snd x)))
    \<and> ((\<forall>f. e \<noteq> Crashed f) \<longrightarrow>
         (\<forall>x\<in>set served.
            length (snd x)
              = length (filter (\<lambda>s. isTopicMatch (topicPattern s) (topic (fst x)) = Inr True)
                          (subscriptions bus))))
    \<and> (\<forall>s\<in>set (subscriptions bus). adapted s)"
proof -
  have "\<forall>s\<in>set (subscriptions (fst (EventBus_init :: ('a, 'b) EventBus, [] :: HandlerId list))).
          adapted s"
    by (simp add: EventBus_init_def)
  from run_ops_adapted [OF this assms(1)] assms(2)
  have ad: "\<forall>s\<in>set (subscriptions bus). adapted s" by simp
  have 1: "wrappedHandler T f \<lparr>type_id = T, msg_data = a\<rparr> hc = f (length hc) (hc @ [hc ! a])"
    by (simp add: wrappedHandler_match)
  have 2: "postAsync T tp m bus h
        = (bus\<lparr>messageQueue := messageQueue bus
                  @ [\<lparr>topic = tp, message = \<lparr>type_id = T, msg_data = length h\<rparr>\<rparr>]\<rparr>, h @ [m])"
    by (simp add: postAsync_def TypedMessage_def make_shared_def)
  from post_preserves [OF ad assms(3)]
  have p: "preserves (h @ [m]) h'" and pc: "\<forall>c\<in>set calls. preserves (h @ [m]) (fst (snd c))"
    by blast+
  have 3: "h' ! length h = m" using p by (auto simp: preserves_def)
  have 4: "\<forall>c\<in>set calls. length h < length (fst (snd c)) \<and> fst (snd c) ! length h = m"
    using pc by (auto simp: preserves_def)
  have 5: "list_all2 (delivers \<lparr>type_id = T, msg_data = length h\<rparr> m)
         (take (length calls)
            (filter (\<lambda>s. isTopicMatch (topicPattern s) tp = Inr True) (subscriptions bus)))
         calls"
    using list_all2_call_of_delivers [OF post_calls_of [OF assms(3)], of m] 4 by simp
  have 6: "length calls
           = length (filter (\<lambda>s. isTopicMatch (topicPattern s) tp = Inr True) (subscriptions bus))"
    if "\<forall>f. res \<noteq> Inl f"
  proof -
    from that obtain rs where "res = Inr rs" by (cases res) auto
    with post_complete [of T tp m bus h rs h' calls] assms(3) show ?thesis by simp
  qed
  from dispatchLoop_preserves [OF ad assms(4)]
  have w: "preserves h0 h0'"
    and wc: "\<forall>x\<in>set served. \<forall>c\<in>set (snd x). preserves h0 (fst (snd c))"
    by auto
  have 7: "\<forall>a<length h0. h0' ! a = h0 ! a
          \<and> (\<forall>x\<in>set served. \<forall>c\<in>set (snd x).
                a < length (fst (snd c)) \<and> fst (snd c) ! a = h0 ! a)"
    using w wc unfolding preserves_def by (meson less_le_trans)
  have 8: "fst x \<in> set (messageQueue bus)
            \<and> list_all2 (delivers (message (fst x)) (h0 ! msg_data (message (fst x))))
                (take (length (snd x))
                   (filter (\<lambda>s. isTopicMatch (topicPattern s) (topic (fst x)) = Inr True)
                      (subscriptions bus)))
                (snd x)"
    if al: "\<forall>ev\<in>set (messageQueue bus). msg_data (message ev) < length h0"
      and x: "x \<in> set served" for x
  proof -
    from dispatchLoop_served_calls_of [OF assms(4) x]
    have q: "fst x \<in> set (messageQueue bus)"
      and l: "list_all2 (call_of (message (fst x)))
            (take (length (snd x))
               (filter (\<lambda>s. isTopicMatch (topicPattern s) (topic (fst x)) = Inr True)
                  (subscriptions bus)))
            (snd x)"
      by simp_all
    have "msg_data (message (fst x)) < length h0" using al q by simp
    then have "\<forall>c\<in>set (snd x). fst (snd c) ! msg_data (message (fst x))
        = h0 ! msg_data (message (fst x))"
      using 7 x by simp
    from list_all2_call_of_delivers [OF l this] q show ?thesis by simp
  qed
  have 9: "length (snd x)
              = length (filter (\<lambda>s. isTopicMatch (topicPattern s) (topic (fst x)) = Inr True)
                          (subscriptions bus))"
    if "\<forall>f. e \<noteq> Crashed f" and "x \<in> set served" for x
    using dispatchLoop_served_complete [OF assms(4) that] by simp
  from 1 2 3 4 5 6 7 8 9 ad show ?thesis by blast
qed

lemma ops2_confined: "\<forall>op\<in>set ops2. confined_op op"
  by (simp add: ops2_def confined_def ok_handler_def)

lemma post_bus_pending:
  "post ''TradeEvent'' ''trade.test'' 7 bus_pending []
     = post ''TradeEvent'' ''trade.test'' 7 bus2 []"
  by (simp add: post_def bus_pending_facts(2))

theorem handlers_receive_fresh_copy_witness:
  "wrappedHandler ''TradeEvent'' ok_handler \<lparr>type_id = ''TradeEvent'', msg_data = 0\<rparr> [7, 7, 7]
     = ok_handler 3 [7, 7, 7, 7]
   \<and> ok_handler 3 [7, 7, 7, 7] = (Returns (Some (Typed (TypedResponse 7 True))), [7, 7, 7, 0])
   \<and> postAsync ''TradeEvent'' ''trade.other'' 8 bus_queued [7] = (bus_pending, [7, 8])
   \<and> post ''TradeEvent'' ''trade.test'' 7 bus_pending []
       = (Inr [Void (TypedResponse_void True), Typed (TypedResponse 7 True)],
          [7, 7, 7, 0],
          [(5, [7], Returns (Some (Typed (TypedResponse 0 False)))),
           (2, [7, 7], Throws (std_exception ''boom'')),
           (3, [7, 7, 7], Returns (Some (Void (TypedResponse_void True)))),
           (6, [7, 7, 7], fst (ok_handler 3 [7, 7, 7, 7]))])
   \<and> list_all2 (delivers \<lparr>type_id = ''TradeEvent'', msg_data = 0\<rparr> 7)
        (filter (\<lambda>s. isTopicMatch (topicPattern s) ''trade.test'' = Inr True)
           (subscriptions bus_pending))
        (snd (snd (post ''TradeEvent'' ''trade.test'' 7 bus_pending [])))
   \<and> dispatchLoop LoopHead bus_pending [7, 8] []
       = (Blocked, bus_pending\<lparr>messageQueue := []\<rparr>, [7, 8, 7, 7, 0, 0],
          [(\<lparr>topic = ''trade.test'', message = \<lparr>type_id = ''TradeEvent'', msg_data = 0\<rparr>\<rparr>,
            [(5, [7, 8], Returns (Some (Typed (TypedResponse 0 False)))),
             (2, [7, 8, 7], Throws (std_exception ''boom'')),
             (3, [7, 8, 7, 7], Returns (Some (Void (TypedResponse_void True)))),
             (6, [7, 8, 7, 7], fst (ok_handler 4 [7, 8, 7, 7, 7]))]),
           (\<lparr>topic = ''trade.other'', message = \<lparr>type_id = ''TradeEvent'', msg_data = 1\<rparr>\<rparr>,
            [(4, [7, 8, 7, 7, 0], fst (ok_handler 5 [7, 8, 7, 7, 0, 8])),
             (3, [7, 8, 7, 7, 0, 0], Returns (Some (Void (TypedResponse_void True))))])])
   \<and> list_all2 (delivers \<lparr>type_id = ''TradeEvent'', msg_data = 1\<rparr> 8)
        (filter (\<lambda>s. isTopicMatch (topicPattern s) ''trade.other'' = Inr True)
           (subscriptions bus_pending))
        [(4, [7, 8, 7, 7, 0], Returns (Some (Typed (TypedResponse 8 True)))),
         (3, [7, 8, 7, 7, 0, 0], Returns (Some (Void (TypedResponse_void True))))]"
proof -
  let ?F = "\<lambda>tp. filter (\<lambda>s. isTopicMatch (topicPattern s) tp = Inr True)
      (subscriptions bus_pending)"
  let ?e2 = "(\<lparr>topic = ''trade.other'', message = \<lparr>type_id = ''TradeEvent'', msg_data = 1\<rparr>\<rparr>,
      [(4 :: HandlerId, [7 :: nat, 8, 7, 7, 0],
          Returns (Some (Typed (TypedResponse (8 :: nat) True)))),
       (3, [7, 8, 7, 7, 0, 0], Returns (Some (Void (TypedResponse_void True))))])"
  have b: "subscriptions bus_pending = subscriptions (fst (run_ops ops2 (EventBus_init, [])))"
    using bus_pending_facts(2) by (simp add: bus2_def)
  have q: "\<forall>ev\<in>set (messageQueue bus_pending). msg_data (message ev) < length [7 :: nat, 8]"
    by (simp add: bus_pending_facts(3))
  note t = handlers_receive_fresh_copy [OF ops2_confined b post_bus_pending [unfolded post_bus2]
      worker_bus_pending, where f = ok_handler and a = 0 and hc = "[7, 7, 7]"]
  note t1 = t [THEN conjunct1]
  note r1 = t [THEN conjunct2]
  note r2 = r1 [THEN conjunct2]
  note r3 = r2 [THEN conjunct2]
  note r4 = r3 [THEN conjunct2]
  note t5 = r4 [THEN conjunct1]
  note r5 = r4 [THEN conjunct2]
  note t6 = r5 [THEN conjunct1]
  note r6 = r5 [THEN conjunct2]
  note r7 = r6 [THEN conjunct2]
  note t8 = r7 [THEN conjunct1]
  note t9 = r7 [THEN conjunct2, THEN conjunct1]
  from t1 have 1: "wrappedHandler ''TradeEvent'' ok_handler
        \<lparr>type_id = ''TradeEvent'', msg_data = 0\<rparr> [7, 7, 7] = ok_handler 3 [7, 7, 7, 7]"
    by (simp add: numeral_3_eq_3)
  have "\<forall>f. (Inr [Void (TypedResponse_void True), Typed (TypedResponse (7 :: nat) True)]
       :: fault + nat Response list) \<noteq> Inl f"
    by simp
  note len = t6 [THEN mp, OF this]
  from t5 [unfolded len]
  have 2: "list_all2 (delivers \<lparr>type_id = ''TradeEvent'', msg_data = 0\<rparr> 7) (?F ''trade.test'')
        (snd (snd (post ''TradeEvent'' ''trade.test'' 7 bus_pending [])))"
    by (simp add: post_bus_pending post_bus2)
  have m: "?e2 \<in> set [(\<lparr>topic = ''trade.test'',
             message = \<lparr>type_id = ''TradeEvent'', msg_data = 0\<rparr>\<rparr>,
          [(5, [7, 8], Returns (Some (Typed (TypedResponse 0 False)))),
           (2, [7, 8, 7], Throws (std_exception ''boom'')),
           (3, [7, 8, 7, 7], Returns (Some (Void (TypedResponse_void True)))),
           (6, [7, 8, 7, 7], Returns (Some (Typed (TypedResponse 7 True))))]), ?e2]"
    by simp
  have "\<forall>f. Blocked \<noteq> Crashed f" by simp
  note len2 = t9 [THEN mp, OF this, THEN bspec, OF m]
  note d2 = t8 [THEN mp, OF q, THEN bspec, OF m, THEN conjunct2]
  from d2 [unfolded len2]
  have 3: "list_all2 (delivers \<lparr>type_id = ''TradeEvent'', msg_data = 1\<rparr> 8) (?F ''trade.other'')
        [(4, [7, 8, 7, 7, 0], Returns (Some (Typed (TypedResponse 8 True)))),
         (3, [7, 8, 7, 7, 0, 0], Returns (Some (Void (TypedResponse_void True))))]"
    by simp
  have 4: "postAsync ''TradeEvent'' ''trade.other'' 8 bus_queued [7] = (bus_pending, [7, 8])"
    by (simp add: bus_pending_def bus_queued_def postAsync_def TypedMessage_def make_shared_def)
  have 5: "fst (ok_handler 3 [7, 7, 7, 7]) = Returns (Some (Typed (TypedResponse 7 True)))"
    "fst (ok_handler 4 [7, 8, 7, 7, 7]) = Returns (Some (Typed (TypedResponse 7 True)))"
    "fst (ok_handler 5 [7, 8, 7, 7, 0, 8]) = Returns (Some (Typed (TypedResponse 8 True)))"
    "ok_handler 3 [7, 7, 7, 7] = (Returns (Some (Typed (TypedResponse 7 True))), [7, 7, 7, 0])"
    by (simp_all add: ok_handler_def TypedResponse_value_def)
  have 6: "post ''TradeEvent'' ''trade.test'' 7 bus_pending []
       = (Inr [Void (TypedResponse_void True), Typed (TypedResponse 7 True)],
          [7, 7, 7, 0],
          [(5, [7], Returns (Some (Typed (TypedResponse 0 False)))),
           (2, [7, 7], Throws (std_exception ''boom'')),
           (3, [7, 7, 7], Returns (Some (Void (TypedResponse_void True)))),
           (6, [7, 7, 7], fst (ok_handler 3 [7, 7, 7, 7]))])"
    unfolding 5(1) post_bus_pending by (rule post_bus2)
  have 7: "dispatchLoop LoopHead bus_pending [7, 8] []
       = (Blocked, bus_pending\<lparr>messageQueue := []\<rparr>, [7, 8, 7, 7, 0, 0],
          [(\<lparr>topic = ''trade.test'', message = \<lparr>type_id = ''TradeEvent'', msg_data = 0\<rparr>\<rparr>,
            [(5, [7, 8], Returns (Some (Typed (TypedResponse 0 False)))),
             (2, [7, 8, 7], Throws (std_exception ''boom'')),
             (3, [7, 8, 7, 7], Returns (Some (Void (TypedResponse_void True)))),
             (6, [7, 8, 7, 7], fst (ok_handler 4 [7, 8, 7, 7, 7]))]),
           (\<lparr>topic = ''trade.other'', message = \<lparr>type_id = ''TradeEvent'', msg_data = 1\<rparr>\<rparr>,
            [(4, [7, 8, 7, 7, 0], fst (ok_handler 5 [7, 8, 7, 7, 0, 8])),
             (3, [7, 8, 7, 7, 0, 0], Returns (Some (Void (TypedResponse_void True))))])])"
    unfolding 5(2,3) by (rule worker_bus_pending)
  show ?thesis by (intro conjI) (fact 1 5(4) 4 6 2 7 3)+
qed

end
